theory Spec2Isabelle
  imports Complex_Main "HOL-Library.Word"
begin

section \<open>Text, bytes and the string primitives the code calls\<close>

text \<open>
  A Python \<open>str\<close> is a list of Unicode code points (natural numbers below \<open>0x110000\<close>),
  a \<open>bytes\<close> object a list of 8-bit words. Time stamps are Python floats; they are
  modelled as real numbers, so rounding error, infinities and NaN are outside the model.
\<close>

type_synonym str = "nat list"
type_synonym byte = "8 word"
type_synonym bytes = "byte list"

definition valid_text :: "str \<Rightarrow> bool" where
  "valid_text t = list_all (\<lambda>c. c < 0x110000) t"

definition is_surrogate :: "nat \<Rightarrow> bool" where
  "is_surrogate c = (0xD800 \<le> c \<and> c < 0xE000)"

text \<open>
  \<open>str.encode('utf-8', errors='replace')\<close>: a lone surrogate cannot be encoded and is
  replaced by \<open>?\<close> (0x3F).
\<close>

definition utf8_encode_char :: "nat \<Rightarrow> bytes" where
  "utf8_encode_char c =
     (if c < 0x80 then [of_nat c]
      else if c < 0x800 then [of_nat (0xC0 + c div 64), of_nat (0x80 + c mod 64)]
      else if is_surrogate c then [0x3F]
      else if c < 0x10000 then
        [of_nat (0xE0 + c div 4096), of_nat (0x80 + (c div 64) mod 64), of_nat (0x80 + c mod 64)]
      else
        [of_nat (0xF0 + c div 262144), of_nat (0x80 + (c div 4096) mod 64),
         of_nat (0x80 + (c div 64) mod 64), of_nat (0x80 + c mod 64)])"

definition utf8_encode :: "str \<Rightarrow> bytes" where
  "utf8_encode t = concat (map utf8_encode_char t)"

text \<open>
  The line boundaries of \<open>str.splitlines()\<close>: LF, VT, FF, CR, FS, GS, RS, NEL, LS, PS;
  CR LF counts as one boundary. NUL is not among them.
\<close>

definition is_linebreak :: "nat \<Rightarrow> bool" where
  "is_linebreak c = (c = 0x0A \<or> c = 0x0B \<or> c = 0x0C \<or> c = 0x0D \<or> c = 0x1C \<or> c = 0x1D
                     \<or> c = 0x1E \<or> c = 0x85 \<or> c = 0x2028 \<or> c = 0x2029)"

fun splitlines_from :: "str \<Rightarrow> str \<Rightarrow> str list" where
  "splitlines_from cur [] = (if cur = [] then [] else [rev cur])"
| "splitlines_from cur (c # cs) =
     (if c = 0x0D then
        (case cs of
           [] \<Rightarrow> [rev cur]
         | d # ds \<Rightarrow> if d = 0x0A then rev cur # splitlines_from [] ds
                    else rev cur # splitlines_from [] cs)
      else if is_linebreak c then rev cur # splitlines_from [] cs
      else splitlines_from (c # cur) cs)"

definition splitlines :: "str \<Rightarrow> str list" where
  "splitlines t = splitlines_from [] t"

text \<open>\<open>str.replace(old, new)\<close> for single characters; it returns a new string.\<close>

definition replace_char :: "nat \<Rightarrow> nat \<Rightarrow> str \<Rightarrow> str" where
  "replace_char old new t = map (\<lambda>c. if c = old then new else c) t"

section \<open>Sockets\<close>

text \<open>
  A socket is modelled by what the peer delivers and what has been written to it.
  \<open>incoming\<close> lists the events the reader meets in order: a block of bytes, a moment
  with no data available, or a connection reset; after the last event the peer has
  closed the connection, and \<open>recv\<close> returns the empty byte string. One \<open>recv\<close> returns
  one delivered block, cut to the requested bound. \<open>sent\<close> lists the packets given to
  \<open>sendall\<close>, one entry per call. \<open>waited\<close> counts the reads that had to wait for
  data, which a blocking socket does where a non-blocking one raises.
\<close>

datatype exn = ConnectionResetError | BlockingIOError | BrokenPipeError | AssertionError

datatype recv_event = Data bytes | NoData | Reset

record sock =
  incoming :: "recv_event list"
  sent :: "bytes list"
  blocking :: bool
  pipe_broken :: bool
  waited :: nat

definition setblocking :: "bool \<Rightarrow> sock \<Rightarrow> sock" where
  "setblocking b s = s\<lparr>blocking := b\<rparr>"

fun recv_events :: "bool \<Rightarrow> nat \<Rightarrow> recv_event list \<Rightarrow> (exn + bytes) \<times> recv_event list \<times> nat" where
  "recv_events blk n [] = (Inr [], [], 0)"
| "recv_events blk n (Data bs # rest) =
     (Inr (take n bs), (if length bs \<le> n then rest else Data (drop n bs) # rest), 0)"
| "recv_events blk n (Reset # rest) = (Inl ConnectionResetError, rest, 0)"
| "recv_events blk n (NoData # rest) =
     (if blk then (case recv_events blk n rest of (r, rest', w) \<Rightarrow> (r, rest', Suc w))
      else (Inl BlockingIOError, rest, 0))"

definition recv :: "nat \<Rightarrow> sock \<Rightarrow> (exn + bytes) \<times> sock" where
  "recv n s =
     (case recv_events (blocking s) n (incoming s) of
        (r, rest, w) \<Rightarrow> (r, s\<lparr>incoming := rest, waited := waited s + w\<rparr>))"

definition sendall :: "bytes \<Rightarrow> sock \<Rightarrow> exn option \<times> sock" where
  "sendall packet s =
     (if pipe_broken s then (Some BrokenPipeError, s)
      else (None, s\<lparr>sent := sent s @ [packet]\<rparr>))"

section \<open>line_packet.py: sending one line\<close>

definition PACKET_SIZE :: nat where
  "PACKET_SIZE = 65536"

text \<open>
  The loop of \<open>send_one_line\<close> over \<open>range(0, len(data), PACKET_SIZE)\<close>. A failing
  \<open>sendall\<close> raises and ends the loop.
\<close>

function send_packets :: "bytes \<Rightarrow> bool \<Rightarrow> nat \<Rightarrow> sock \<Rightarrow> exn option \<times> sock" where
  "send_packets data pad_zeros offset s =
     (if offset < length data then
        (let bytes_remaining = length data - offset;
             packet =
               (if bytes_remaining < PACKET_SIZE then
                  drop offset data
                  @ (if pad_zeros then replicate (PACKET_SIZE - bytes_remaining) 0 else [])
                else take PACKET_SIZE (drop offset data))
         in case sendall packet s of
              (Some e, s') \<Rightarrow> (Some e, s')
            | (None, s') \<Rightarrow> send_packets data pad_zeros (offset + PACKET_SIZE) s')
      else (None, s))"
  by pat_completeness auto
termination
  by (relation "measure (\<lambda>(data, pad_zeros, offset, s). length data - offset)")
     (auto simp: PACKET_SIZE_def)

declare send_packets.simps [simp del]

text \<open>
  \<open>send_one_line\<close>. Its first statement, \<open>text.replace('\0', '\n')\<close>, builds a new
  string and drops it: \<open>text\<close> itself is what \<open>splitlines\<close> sees.
\<close>

definition send_one_line :: "sock \<Rightarrow> str \<Rightarrow> bool \<Rightarrow> exn option \<times> sock" where
  "send_one_line s txt pad_zeros =
     (let unused = replace_char 0 0x0A txt;
          lines = splitlines txt;
          first_line = (case lines of [] \<Rightarrow> [] | l # ls \<Rightarrow> l);
          data = utf8_encode first_line @ [0x0A] @ (if pad_zeros then [0] else [])
      in send_packets data pad_zeros 0 s)"

section \<open>line_packet.py: Connection\<close>

record connection =
  conn :: sock
  last_line :: str

definition Connection_PACKET_SIZE :: nat where
  "Connection_PACKET_SIZE = 32000 * 5 * 60"

definition Connection_init :: "sock \<Rightarrow> connection" where
  "Connection_init c = \<lparr>conn = setblocking True c, last_line = []\<rparr>"

text \<open>
  \<open>Connection.send\<close>: the second argument of \<open>send_one_line\<close> keeps its default,
  \<open>pad_zeros = False\<close>. When \<open>send_one_line\<close> raises, \<open>last_line\<close> is not assigned.
\<close>

definition send :: "connection \<Rightarrow> str \<Rightarrow> exn option \<times> connection" where
  "send c line =
     (if line = last_line c then (None, c)
      else (case send_one_line (conn c) line False of
              (Some e, s') \<Rightarrow> (Some e, c\<lparr>conn := s'\<rparr>)
            | (None, s') \<Rightarrow> (None, c\<lparr>conn := s', last_line := line\<rparr>)))"

text \<open>\<open>Connection.non_blocking_receive_audio\<close>: only \<open>ConnectionResetError\<close> is caught.\<close>

definition non_blocking_receive_audio :: "connection \<Rightarrow> (exn + bytes option) \<times> connection" where
  "non_blocking_receive_audio c =
     (case recv Connection_PACKET_SIZE (conn c) of
        (Inr r, s') \<Rightarrow> (Inr (Some r), c\<lparr>conn := s'\<rparr>)
      | (Inl ConnectionResetError, s') \<Rightarrow> (Inr None, c\<lparr>conn := s'\<rparr>)
      | (Inl e, s') \<Rightarrow> (Inl e, c\<lparr>conn := s'\<rparr>))"

section \<open>line_packet.py: receiving one line\<close>

text \<open>
  \<open>bytes.decode('utf-8', errors='replace')\<close>, as CPython's decoder does it: an ill-formed
  sequence is replaced by U+FFFD up to (not including) the first byte that cannot continue
  it, and decoding resumes at that byte; a sequence cut off by the end of the input is
  replaced by one U+FFFD. Overlong forms, surrogates and code points above U+10FFFF are
  ill-formed.
\<close>

definition is_continuation :: "byte \<Rightarrow> bool" where
  "is_continuation b = (0x80 \<le> unat b \<and> unat b < 0xC0)"

fun utf8_decode :: "bytes \<Rightarrow> str" where
  "utf8_decode [] = []"
| "utf8_decode (b # bs) =
     (let ch = unat b in
      if ch < 0x80 then ch # utf8_decode bs
      else if ch < 0xC2 then 0xFFFD # utf8_decode bs
      else if ch < 0xE0 then
        (case bs of
           [] \<Rightarrow> [0xFFFD]
         | b2 # r2 \<Rightarrow>
             if \<not> is_continuation b2 then 0xFFFD # utf8_decode bs
             else (ch * 64 + unat b2 - (0xC0 * 64 + 0x80)) # utf8_decode r2)
      else if ch < 0xF0 then
        (case bs of
           [] \<Rightarrow> [0xFFFD]
         | b2 # r2 \<Rightarrow>
             if \<not> is_continuation b2 \<or> (if unat b2 < 0xA0 then ch = 0xE0 else ch = 0xED)
             then 0xFFFD # utf8_decode bs
             else
               (case r2 of
                  [] \<Rightarrow> [0xFFFD]
                | b3 # r3 \<Rightarrow>
                    if \<not> is_continuation b3 then 0xFFFD # utf8_decode r2
                    else (ch * 4096 + unat b2 * 64 + unat b3
                          - (0xE0 * 4096 + 0x80 * 64 + 0x80)) # utf8_decode r3))
      else if ch < 0xF5 then
        (case bs of
           [] \<Rightarrow> [0xFFFD]
         | b2 # r2 \<Rightarrow>
             if \<not> is_continuation b2 \<or> (if unat b2 < 0x90 then ch = 0xF0 else ch = 0xF4)
             then 0xFFFD # utf8_decode bs
             else
               (case r2 of
                  [] \<Rightarrow> [0xFFFD]
                | b3 # r3 \<Rightarrow>
                    if \<not> is_continuation b3 then 0xFFFD # utf8_decode r2
                    else
                      (case r3 of
                         [] \<Rightarrow> [0xFFFD]
                       | b4 # r4 \<Rightarrow>
                           if \<not> is_continuation b4 then 0xFFFD # utf8_decode r3
                           else (ch * 262144 + unat b2 * 4096 + unat b3 * 64 + unat b4
                                 - (0xF0 * 262144 + 0x80 * 4096 + 0x80 * 64 + 0x80))
                                # utf8_decode r4)))
      else 0xFFFD # utf8_decode bs)"

text \<open>\<open>str.strip(chars)\<close> for one character, and \<open>str.split(sep)\<close> for a one-character separator.\<close>

definition strip_char :: "nat \<Rightarrow> str \<Rightarrow> str" where
  "strip_char c t = rev (dropWhile (\<lambda>x. x = c) (rev (dropWhile (\<lambda>x. x = c) t)))"

fun split_char :: "nat \<Rightarrow> str \<Rightarrow> str list" where
  "split_char sep [] = [[]]"
| "split_char sep (c # cs) =
     (if c = sep then [] # split_char sep cs
      else (case split_char sep cs of
              [] \<Rightarrow> [[c]]
            | l # ls \<Rightarrow> (c # l) # ls))"

text \<open>The number of reads a socket can still serve: the measure of every receive loop.\<close>

fun event_size :: "recv_event \<Rightarrow> nat" where
  "event_size (Data bs) = Suc (length bs)"
| "event_size NoData = 1"
| "event_size Reset = 1"

definition pending :: "sock \<Rightarrow> nat" where
  "pending s = sum_list (map event_size (incoming s))"

lemma recv_events_less:
  "recv_events blk n evs = (Inr p, rest, w) \<Longrightarrow> p \<noteq> [] \<Longrightarrow>
   sum_list (map event_size rest) < sum_list (map event_size evs)"
proof (induction blk n evs arbitrary: p rest w rule: recv_events.induct)
  case (1 blk n)
  then show ?case by simp
next
  case (2 blk n bs rest0)
  then show ?case by (cases "n = 0") (auto split: if_splits)
next
  case (3 blk n rest0)
  then show ?case by simp
next
  case (4 blk n rest0)
  show ?case
  proof (cases blk)
    case False
    with 4 show ?thesis by simp
  next
    case True
    obtain r0 rest1 w0 where r: "recv_events blk n rest0 = (r0, rest1, w0)"
      by (cases "recv_events blk n rest0") auto
    with "4.prems" True have eq: "r0 = Inr p" "rest1 = rest" by auto
    from "4.IH" [OF True] r eq "4.prems"(2)
    have "sum_list (map event_size rest) < sum_list (map event_size rest0)" by simp
    then show ?thesis by simp
  qed
qed

lemma recv_events_le:
  "recv_events blk n evs = (r, rest, w) \<Longrightarrow>
   sum_list (map event_size rest) \<le> sum_list (map event_size evs)"
proof (induction blk n evs arbitrary: r rest w rule: recv_events.induct)
  case (4 blk n rest0)
  show ?case
  proof (cases blk)
    case False
    with 4 show ?thesis by auto
  next
    case True
    obtain r0 rest1 w0 where r: "recv_events blk n rest0 = (r0, rest1, w0)"
      by (cases "recv_events blk n rest0") auto
    with "4.prems" True have eq: "rest1 = rest" by auto
    from "4.IH" [OF True r] eq show ?thesis by simp
  qed
qed (auto split: if_splits)

lemma recv_pending_less:
  "recv n s = (Inr p, s') \<Longrightarrow> p \<noteq> [] \<Longrightarrow> pending s' < pending s"
  by (cases "recv_events (blocking s) n (incoming s)")
     (auto simp: recv_def pending_def dest: recv_events_less)

lemma recv_pending_le: "recv n s = (r, s') \<Longrightarrow> pending s' \<le> pending s"
  by (cases "recv_events (blocking s) n (incoming s)")
     (auto simp: recv_def pending_def dest: recv_events_le)

text \<open>
  The loop of \<open>receive_one_line\<close>: read packets until one is empty (the connection has
  been closed: the line is \<open>None\<close>) or holds a NUL byte.
\<close>

function receive_packets :: "bytes \<Rightarrow> sock \<Rightarrow> (exn + bytes option) \<times> sock" where
  "receive_packets data s =
     (case recv PACKET_SIZE s of
        (Inl e, s') \<Rightarrow> (Inl e, s')
      | (Inr packet, s') \<Rightarrow>
          if packet = [] then (Inr None, s')
          else if 0 \<in> set packet then (Inr (Some (data @ packet)), s')
          else receive_packets (data @ packet) s')"
  by pat_completeness auto
termination
  by (relation "measure (\<lambda>(data, s). pending s)") (auto dest: recv_pending_less [OF sym])

declare receive_packets.simps [simp del]

definition receive_one_line :: "sock \<Rightarrow> (exn + str option) \<times> sock" where
  "receive_one_line s =
     (case receive_packets [] s of
        (Inl e, s') \<Rightarrow> (Inl e, s')
      | (Inr None, s') \<Rightarrow> (Inr None, s')
      | (Inr (Some data), s') \<Rightarrow>
          (let txt = strip_char 0 (utf8_decode data);
               lines = split_char 0x0A txt
           in (Inr (Some ((case lines of [] \<Rightarrow> [] | l # ls \<Rightarrow> l) @ [0x0A])), s')))"

section \<open>Formatting numbers\<close>

text \<open>
  \<open>'%1.0f' % x\<close> and \<open>'%1.4f' % x\<close> on exact values: the sign, then the decimal digits
  of the magnitude rounded to zero or four places, ties going to the even digit.
\<close>

definition round_half_even :: "real \<Rightarrow> int" where
  "round_half_even x =
     (let f = \<lfloor>x\<rfloor>; d = x - of_int f
      in if d < 1 / 2 then f else if 1 / 2 < d then f + 1 else if even f then f else f + 1)"

fun dec_digits :: "nat \<Rightarrow> str" where
  "dec_digits n = (if n < 10 then [48 + n] else dec_digits (n div 10) @ [48 + n mod 10])"

declare dec_digits.simps [simp del]

definition fmt_f0 :: "real \<Rightarrow> str" where
  "fmt_f0 x = (if x < 0 then [45] else []) @ dec_digits (nat \<bar>round_half_even x\<bar>)"

definition fmt_f4 :: "real \<Rightarrow> str" where
  "fmt_f4 x =
     (let r = nat \<bar>round_half_even (x * 10000)\<bar>; m = r mod 10000
      in (if x < 0 then [45] else []) @ dec_digits (r div 10000) @ [46]
         @ [48 + m div 1000, 48 + (m div 100) mod 10, 48 + (m div 10) mod 10, 48 + m mod 10])"

section \<open>line_packet.py: ServerProcessor\<close>

text \<open>
  A segment is the triple \<open>(o[0], o[1], o[2])\<close> the engine returns. \<open>o[1]\<close> is read only
  when \<open>o[0]\<close> is not \<open>None\<close>, and the engine then gives a number, so the end is modelled
  as a number.
\<close>

record segment =
  seg_start :: "real option"
  seg_end :: real
  seg_text :: str

type_synonym audio = "real list"

text \<open>
  The recognition engine is an external collaborator: the session drives it through four
  operations on the engine's own state \<open>'e\<close>. \<open>process_iter\<close> may raise
  \<open>AssertionError\<close>.
\<close>

record 'e asr_ops =
  asr_init :: "'e \<Rightarrow> 'e"
  insert_audio_chunk :: "audio \<Rightarrow> 'e \<Rightarrow> 'e"
  process_iter :: "'e \<Rightarrow> (exn + segment) \<times> 'e"
  finish :: "'e \<Rightarrow> segment \<times> 'e"

text \<open>\<open>err_out\<close> are the lines the session prints to \<open>sys.stderr\<close>.\<close>

record 'e server_processor =
  connection :: connection
  online_asr_proc :: 'e
  min_chunk :: real
  last_end :: "real option"
  is_first :: bool
  err_out :: "str list"

definition SAMPLING_RATE :: nat where
  "SAMPLING_RATE = 16000"

definition ServerProcessor_init :: "connection \<Rightarrow> 'e \<Rightarrow> real \<Rightarrow> 'e server_processor" where
  "ServerProcessor_init c online mc =
     \<lparr>connection = c, online_asr_proc = online, min_chunk = mc, last_end = None,
      is_first = True, err_out = []\<rparr>"

text \<open>
  The loop of \<open>receive_audio_chunk\<close>. \<open>decode\<close> stands for the soundfile/librosa call
  that turns one block of raw 16-bit PCM bytes into samples. \<open>not raw_bytes\<close> holds for
  \<open>None\<close> and for the empty byte string.
\<close>

function collect_audio ::
  "(bytes \<Rightarrow> audio) \<Rightarrow> real \<Rightarrow> audio list \<Rightarrow> connection \<Rightarrow> exn option \<times> audio list \<times> connection"
where
  "collect_audio decode minlimit out c =
     (if real (sum_list (map length out)) < minlimit then
        (case non_blocking_receive_audio c of
           (Inl e, c') \<Rightarrow> (Some e, out, c')
         | (Inr None, c') \<Rightarrow> (None, out, c')
         | (Inr (Some raw_bytes), c') \<Rightarrow>
             if raw_bytes = [] then (None, out, c')
             else collect_audio decode minlimit (out @ [decode raw_bytes]) c')
      else (None, out, c))"
  by pat_completeness auto
termination
proof (relation "measure (\<lambda>(decode, minlimit, out, c). pending (conn c))", goal_cases)
  case 1
  show ?case by simp
next
  case (2 decode minlimit out c x1 c' b raw_bytes)
  then have "recv Connection_PACKET_SIZE (conn c) = (Inr raw_bytes, conn c')"
    by (auto simp: non_blocking_receive_audio_def split: prod.splits sum.splits exn.splits)
  with 2 show ?case by (auto dest: recv_pending_less)
qed

declare collect_audio.simps [simp del]

definition receive_audio_chunk ::
  "(bytes \<Rightarrow> audio) \<Rightarrow> 'e server_processor \<Rightarrow> (exn + audio option) \<times> 'e server_processor"
where
  "receive_audio_chunk decode sp =
     (let minlimit = min_chunk sp * real SAMPLING_RATE in
      case collect_audio decode minlimit [] (connection sp) of
        (Some e, out, c') \<Rightarrow> (Inl e, sp\<lparr>connection := c'\<rparr>)
      | (None, out, c') \<Rightarrow>
          (let sp' = sp\<lparr>connection := c'\<rparr> in
           if out = [] then (Inr None, sp')
           else
             (let conc = concat out in
              if is_first sp' \<and> real (length conc) < minlimit then (Inr None, sp')
              else (Inr (Some (concat out)), sp'\<lparr>is_first := False\<rparr>))))"

text \<open>\<open>"%1.0f %1.0f %s" % (beg, end, o[2])\<close>\<close>

definition fmt_line :: "real \<Rightarrow> real \<Rightarrow> str \<Rightarrow> str" where
  "fmt_line b e t = fmt_f0 b @ [32] @ fmt_f0 e @ [32] @ t"

definition format_output_transcript ::
  "segment \<Rightarrow> 'e server_processor \<Rightarrow> str option \<times> 'e server_processor"
where
  "format_output_transcript seg sp =
     (case seg_start seg of
        Some s \<Rightarrow>
          (let beg0 = s * 1000;
               e = seg_end seg * 1000;
               beg = (case last_end sp of Some l \<Rightarrow> max beg0 l | None \<Rightarrow> beg0);
               msg = fmt_line beg e (seg_text seg)
           in (Some msg, sp\<lparr>last_end := Some e, err_out := err_out sp @ [msg]\<rparr>))
      | None \<Rightarrow> (None, sp))"

definition send_result :: "segment \<Rightarrow> 'e server_processor \<Rightarrow> exn option \<times> 'e server_processor" where
  "send_result seg sp =
     (case format_output_transcript seg sp of
        (Some msg, sp') \<Rightarrow>
          (case send (connection sp') msg of (r, c') \<Rightarrow> (r, sp'\<lparr>connection := c'\<rparr>))
      | (None, sp') \<Rightarrow> (None, sp'))"

text \<open>
  Writing does not touch what the peer delivers, and every chunk that
  \<open>receive_audio_chunk\<close> returns has used up at least one delivered block: the session
  loop below ends.
\<close>

lemma sendall_incoming: "sendall p s = (r, s') \<Longrightarrow> incoming s' = incoming s"
  by (auto simp: sendall_def split: if_splits)

lemma send_packets_incoming:
  "send_packets data pad offset s = (r, s') \<Longrightarrow> incoming s' = incoming s"
proof (induction data pad offset s arbitrary: r s' rule: send_packets.induct)
  case (1 data pad_zeros offset s)
  show ?case
  proof (cases "offset < length data")
    case False
    with "1.prems" show ?thesis by (simp add: send_packets.simps [of data pad_zeros offset s])
  next
    case True
    define packet where "packet =
               (if length data - offset < PACKET_SIZE then
                  drop offset data
                  @ (if pad_zeros then replicate (PACKET_SIZE - (length data - offset)) 0 else [])
                else take PACKET_SIZE (drop offset data))"
    obtain x s1 where sa: "sendall packet s = (x, s1)" by (cases "sendall packet s") auto
    have inc: "incoming s1 = incoming s" using sa by (rule sendall_incoming)
    show ?thesis
    proof (cases x)
      case (Some e)
      with "1.prems" True sa inc show ?thesis
        by (simp add: send_packets.simps [of data pad_zeros offset s] Let_def packet_def [symmetric])
    next
      case None
      with "1.prems" True sa
      have "send_packets data pad_zeros (offset + PACKET_SIZE) s1 = (r, s')"
        by (simp add: send_packets.simps [of data pad_zeros offset s] Let_def packet_def [symmetric])
      from "1.IH" [OF True refl refl _ refl this] sa None inc
      show ?thesis by (simp add: packet_def)
    qed
  qed
qed

lemma send_pending: "send c line = (r, c') \<Longrightarrow> pending (conn c') = pending (conn c)"
  by (auto simp: send_def send_one_line_def pending_def Let_def
      split: if_splits prod.splits option.splits dest: send_packets_incoming)

lemma send_result_pending:
  "send_result seg sp = (r, sp') \<Longrightarrow> pending (conn (connection sp')) = pending (conn (connection sp))"
  by (auto simp: send_result_def format_output_transcript_def Let_def
      split: prod.splits option.splits dest: send_pending)

lemma non_blocking_receive_audio_pending_le:
  "non_blocking_receive_audio c = (r, c') \<Longrightarrow> pending (conn c') \<le> pending (conn c)"
  by (auto simp: non_blocking_receive_audio_def split: prod.splits sum.splits exn.splits
      dest: recv_pending_le)

lemma non_blocking_receive_audio_pending_less:
  "non_blocking_receive_audio c = (Inr (Some raw), c') \<Longrightarrow> raw \<noteq> [] \<Longrightarrow>
   pending (conn c') < pending (conn c)"
  by (auto simp: non_blocking_receive_audio_def split: prod.splits sum.splits exn.splits
      dest: recv_pending_less)

lemma collect_audio_pending:
  "collect_audio decode minlimit out c = (r, out', c') \<Longrightarrow>
   pending (conn c') \<le> pending (conn c) \<and> (out' \<noteq> out \<longrightarrow> pending (conn c') < pending (conn c))"
proof (induction decode minlimit out c arbitrary: r out' c' rule: collect_audio.induct)
  case (1 decode minlimit out c)
  show ?case
  proof (cases "real (sum_list (map length out)) < minlimit")
    case False
    with "1.prems" show ?thesis by (simp add: collect_audio.simps [of decode minlimit out c])
  next
    case True
    obtain x c1 where nb: "non_blocking_receive_audio c = (x, c1)"
      by (cases "non_blocking_receive_audio c") auto
    have le: "pending (conn c1) \<le> pending (conn c)"
      using nb by (rule non_blocking_receive_audio_pending_le)
    show ?thesis
    proof (cases x)
      case (Inl e)
      with "1.prems" True nb le show ?thesis
        by (simp add: collect_audio.simps [of decode minlimit out c])
    next
      case (Inr y)
      show ?thesis
      proof (cases y)
        case None
        with "1.prems" True nb le Inr show ?thesis
          by (simp add: collect_audio.simps [of decode minlimit out c])
      next
        case (Some raw)
        show ?thesis
        proof (cases "raw = []")
          case True
          with "1.prems" \<open>real (sum_list (map length out)) < minlimit\<close> nb le Inr Some show ?thesis
            by (simp add: collect_audio.simps [of decode minlimit out c])
        next
          case False
          have less: "pending (conn c1) < pending (conn c)"
            using nb Inr Some False by (auto dest: non_blocking_receive_audio_pending_less)
          have rec: "collect_audio decode minlimit (out @ [decode raw]) c1 = (r, out', c')"
            using "1.prems" True nb Inr Some False
            by (simp add: collect_audio.simps [of decode minlimit out c])
          from "1.IH" [OF True nb [symmetric] Inr Some False rec] less
          show ?thesis by auto
        qed
      qed
    qed
  qed
qed

lemma receive_audio_chunk_pending:
  "receive_audio_chunk decode sp = (Inr (Some a), sp') \<Longrightarrow>
   pending (conn (connection sp')) < pending (conn (connection sp))"
proof -
  assume a: "receive_audio_chunk decode sp = (Inr (Some a), sp')"
  obtain r out c' where c: "collect_audio decode (min_chunk sp * real SAMPLING_RATE) [] (connection sp) = (r, out, c')"
    by (cases "collect_audio decode (min_chunk sp * real SAMPLING_RATE) [] (connection sp)") auto
  from a c have "out \<noteq> []" "connection sp' = c'"
    by (auto simp: receive_audio_chunk_def Let_def split: option.splits if_splits)
  with collect_audio_pending [OF c] show ?thesis by auto
qed

function process_loop ::
  "(bytes \<Rightarrow> audio) \<Rightarrow> 'e asr_ops \<Rightarrow> 'e server_processor \<Rightarrow> exn option \<times> 'e server_processor"
where
  "process_loop decode ops sp =
     (case receive_audio_chunk decode sp of
        (Inl e, sp1) \<Rightarrow> (Some e, sp1)
      | (Inr None, sp1) \<Rightarrow> (None, sp1)
      | (Inr (Some a), sp1) \<Rightarrow>
          (case process_iter ops (insert_audio_chunk ops a (online_asr_proc sp1)) of
             (Inl e, eng) \<Rightarrow> (Some e, sp1\<lparr>online_asr_proc := eng\<rparr>)
           | (Inr seg, eng) \<Rightarrow>
               (case send_result seg (sp1\<lparr>online_asr_proc := eng\<rparr>) of
                  (Some BrokenPipeError, sp2) \<Rightarrow> (None, sp2)
                | (Some e, sp2) \<Rightarrow> (Some e, sp2)
                | (None, sp2) \<Rightarrow> process_loop decode ops sp2)))"
  by pat_completeness auto
termination
proof (relation "measure (\<lambda>(decode, ops, sp). pending (conn (connection sp)))", goal_cases)
  case 1
  show ?case by simp
next
  case (2 decode ops sp x1 sp1 y a x2 eng seg x3 sp2)
  from 2 have "pending (conn (connection sp1)) < pending (conn (connection sp))"
    by (auto dest: receive_audio_chunk_pending [OF sym])
  moreover from 2 have "pending (conn (connection sp2)) = pending (conn (connection (sp1\<lparr>online_asr_proc := eng\<rparr>)))"
    by (auto dest: send_result_pending [OF sym])
  ultimately show ?case by simp
qed

declare process_loop.simps [simp del]

text \<open>
  \<open>ServerProcessor.process\<close>: the engine's \<open>init\<close>, then the loop. The loop is left
  when \<open>receive_audio_chunk\<close> returns \<open>None\<close> or \<open>send_result\<close> raises
  \<open>BrokenPipeError\<close>; the method returns right after it (the two lines that would call
  \<open>finish\<close> are commented out in the source). Any other exception propagates.
\<close>

definition process ::
  "(bytes \<Rightarrow> audio) \<Rightarrow> 'e asr_ops \<Rightarrow> 'e server_processor \<Rightarrow> exn option \<times> 'e server_processor"
where
  "process decode ops sp =
     process_loop decode ops (sp\<lparr>online_asr_proc := asr_init ops (online_asr_proc sp)\<rparr>)"

section \<open>whisper_online.py: the simulation driver\<close>

text \<open>
  The driver prints to \<open>logfile\<close> (standard error) and to standard output.
  \<open>output_transcript(o, now=None)\<close>: when \<open>now\<close> is \<open>None\<close> the function computes
  \<open>time.time() - start\<close> (here \<open>elapsed\<close>) and returns \<open>None\<close> at once.
\<close>

record out_streams =
  stdout :: "str list"
  logfile :: "str list"

definition output_transcript ::
  "real \<Rightarrow> segment \<Rightarrow> real option \<Rightarrow> out_streams \<Rightarrow> str option \<times> out_streams"
where
  "output_transcript elapsed seg now w =
     (case now of
        None \<Rightarrow> (let now1 = elapsed in (None, w))
      | Some t \<Rightarrow>
          (case seg_start seg of
             Some s \<Rightarrow>
               (let line = fmt_f4 (t * 1000) @ [32] @ fmt_f0 (s * 1000) @ [32]
                           @ fmt_f0 (seg_end seg * 1000) @ [32] @ seg_text seg
                in (Some line, w\<lparr>logfile := logfile w @ [line], stdout := stdout w @ [line]\<rparr>))
           | None \<Rightarrow> (None, w)))"

text \<open>
  The offline branch of the main program followed by the two closing statements
  \<open>o = online.finish(); output_transcript(o, now=now)\<close>: the whole audio is inserted,
  \<open>process_iter\<close> runs once (an \<open>AssertionError\<close> is logged and skipped, any other
  exception ends the program), \<open>output_transcript(o)\<close> is called without \<open>now\<close>, and
  \<open>now\<close> is set to \<open>None\<close>.
\<close>

definition offline_mode ::
  "'e asr_ops \<Rightarrow> real \<Rightarrow> audio \<Rightarrow> 'e \<Rightarrow> out_streams \<Rightarrow> exn option \<times> 'e \<times> out_streams"
where
  "offline_mode ops elapsed a online w =
     (case process_iter ops (insert_audio_chunk ops a online) of
        (Inr seg, online1) \<Rightarrow>
          (let w1 = snd (output_transcript elapsed seg None w);
               now = None;
               (seg2, online2) = finish ops online1
           in (None, online2, snd (output_transcript elapsed seg2 now w1)))
      | (Inl AssertionError, online1) \<Rightarrow>
          (let now = None;
               (seg2, online2) = finish ops online1
           in (None, online2, snd (output_transcript elapsed seg2 now w)))
      | (Inl e, online1) \<Rightarrow> (Some e, online1, w))"

section \<open>Notions used in the statements\<close>

text \<open>
  A socket on which nothing has been written yet, in the blocking mode a new socket has,
  with the given events to come from the peer.
\<close>

definition peer_sock :: "recv_event list \<Rightarrow> sock" where
  "peer_sock evs = \<lparr>incoming = evs, sent = [], blocking = True, pipe_broken = False, waited = 0\<rparr>"

text \<open>
  The packets the loop of \<open>send_one_line\<close> hands to \<open>sendall\<close>, as a list; the first
  line of a text; the bytes of a line before they are cut into packets.
\<close>

function packets_from :: "bytes \<Rightarrow> bool \<Rightarrow> nat \<Rightarrow> bytes list" where
  "packets_from data pad_zeros offset =
     (if offset < length data then
        (let bytes_remaining = length data - offset;
             packet =
               (if bytes_remaining < PACKET_SIZE then
                  drop offset data
                  @ (if pad_zeros then replicate (PACKET_SIZE - bytes_remaining) 0 else [])
                else take PACKET_SIZE (drop offset data))
         in packet # packets_from data pad_zeros (offset + PACKET_SIZE))
      else [])"
  by pat_completeness auto
termination
  by (relation "measure (\<lambda>(data, pad_zeros, offset). length data - offset)")
     (auto simp: PACKET_SIZE_def)

declare packets_from.simps [simp del]

definition first_line :: "str \<Rightarrow> str" where
  "first_line txt = (case splitlines txt of [] \<Rightarrow> [] | l # ls \<Rightarrow> l)"

definition line_data :: "str \<Rightarrow> bool \<Rightarrow> bytes" where
  "line_data txt pad_zeros = utf8_encode (first_line txt) @ [0x0A] @ (if pad_zeros then [0] else [])"

definition line_packets :: "str \<Rightarrow> bool \<Rightarrow> bytes list" where
  "line_packets txt pad_zeros = packets_from (line_data txt pad_zeros) pad_zeros 0"

text \<open>
  Feeding a sequence of segments through \<open>format_output_transcript\<close>, one call after the
  other: the returned line and the state after each call. \<open>state_before\<close> is the state
  the \<open>i\<close>-th call starts from, and \<open>clamp_start\<close> the start it formats.
\<close>

fun feed :: "segment list \<Rightarrow> 'e server_processor \<Rightarrow> (str option \<times> 'e server_processor) list" where
  "feed [] sp = []"
| "feed (seg # segs) sp =
     (case format_output_transcript seg sp of (r, sp') \<Rightarrow> (r, sp') # feed segs sp')"

definition clamp_start :: "real option \<Rightarrow> real \<Rightarrow> real" where
  "clamp_start le b = (case le of None \<Rightarrow> b | Some l \<Rightarrow> max b l)"

definition state_before :: "segment list \<Rightarrow> 'e server_processor \<Rightarrow> nat \<Rightarrow> 'e server_processor" where
  "state_before segs sp i = (if i = 0 then sp else snd (feed segs sp ! (i - 1)))"

text \<open>
  A session on a new connection with no engine state, two segments whose second one starts
  and ends before the first has ended, and the segment the engine returns when it has
  recognised nothing.
\<close>

definition fresh_session :: "recv_event list \<Rightarrow> real \<Rightarrow> unit server_processor" where
  "fresh_session evs mc = ServerProcessor_init (Connection_init (peer_sock evs)) () mc"

definition regressing_segments :: "segment list" where
  "regressing_segments =
     [\<lparr>seg_start = Some 0, seg_end = 5, seg_text = [97]\<rparr>,
      \<lparr>seg_start = Some 1, seg_end = 2, seg_text = [98]\<rparr>]"

definition no_text_segment :: segment where
  "no_text_segment = \<lparr>seg_start = None, seg_end = 0, seg_text = []\<rparr>"

text \<open>
  An engine that records the calls made to it and answers \<open>process_iter\<close> and \<open>finish\<close>
  with fixed segments; two segments with text; the decoding of raw little-endian 16-bit
  PCM into samples between -1 and 1; a session whose peer delivers one block of two
  samples and closes, with a minimum chunk of two samples.
\<close>

datatype call = CInit | CInsert nat | CProcessIter | CFinish

definition scripted :: "segment \<Rightarrow> segment \<Rightarrow> call list asr_ops" where
  "scripted seg_iter seg_fin =
     \<lparr>asr_init = (\<lambda>l. l @ [CInit]),
      insert_audio_chunk = (\<lambda>a l. l @ [CInsert (length a)]),
      process_iter = (\<lambda>l. (Inr seg_iter, l @ [CProcessIter])),
      finish = (\<lambda>l. (seg_fin, l @ [CFinish]))\<rparr>"

definition hello :: segment where
  "hello = \<lparr>seg_start = Some 0, seg_end = 1, seg_text = [104, 105]\<rparr>"

definition goodbye :: segment where
  "goodbye = \<lparr>seg_start = Some 1, seg_end = 2, seg_text = [98, 121, 101]\<rparr>"

fun pcm16le :: "bytes \<Rightarrow> audio" where
  "pcm16le (lo # hi # rest) =
     (let v = int (unat lo) + 256 * int (unat hi)
      in real_of_int (if v < 32768 then v else v - 65536) / 32768) # pcm16le rest"
| "pcm16le [b] = []"
| "pcm16le [] = []"

definition one_block_session :: "call list server_processor" where
  "one_block_session =
     ServerProcessor_init (Connection_init (peer_sock [Data [0, 0, 0, 0]])) [] (1 / 8000)"

text \<open>
  Streams for the audio accumulator: the events after the delivered blocks close the
  stream when the peer has closed or reset the connection; a block is whole when it is
  not empty and fits into one read.
\<close>

definition closes :: "recv_event list \<Rightarrow> bool" where
  "closes evs = (case evs of [] \<Rightarrow> True | Reset # rest \<Rightarrow> True | _ \<Rightarrow> False)"

definition whole_blocks :: "bytes list \<Rightarrow> bool" where
  "whole_blocks blocks = list_all (\<lambda>b. b \<noteq> [] \<and> length b \<le> Connection_PACKET_SIZE) blocks"

text \<open>
  What the lossy encoding does to one code point, and the packets of a line that come
  before the one holding the terminating NUL.
\<close>

definition lossy :: "nat \<Rightarrow> nat" where
  "lossy c = (if is_surrogate c then 0x3F else c)"

definition quiet_packet :: "bytes \<Rightarrow> bool" where
  "quiet_packet q = (q \<noteq> [] \<and> length q \<le> PACKET_SIZE \<and> 0 \<notin> set q)"

section \<open>What one line puts on the wire\<close>

lemma send_packets_sent:
  "\<not> pipe_broken s \<Longrightarrow>
   send_packets data pad offset s = (None, s\<lparr>sent := sent s @ packets_from data pad offset\<rparr>)"
proof (induction data pad offset s rule: send_packets.induct)
  case (1 data pad_zeros offset s)
  show ?case
  proof (cases "offset < length data")
    case False
    then show ?thesis
      by (simp add: send_packets.simps [of data pad_zeros offset s]
          packets_from.simps [of data pad_zeros offset])
  next
    case True
    define packet where "packet =
               (if length data - offset < PACKET_SIZE then
                  drop offset data
                  @ (if pad_zeros then replicate (PACKET_SIZE - (length data - offset)) 0 else [])
                else take PACKET_SIZE (drop offset data))"
    have sa: "sendall packet s = (None, s\<lparr>sent := sent s @ [packet]\<rparr>)"
      using "1.prems" by (simp add: sendall_def)
    have nb: "\<not> pipe_broken (s\<lparr>sent := sent s @ [packet]\<rparr>)"
      using "1.prems" by simp
    have ih: "send_packets data pad_zeros (offset + PACKET_SIZE) (s\<lparr>sent := sent s @ [packet]\<rparr>)
       = (None, s\<lparr>sent := sent s @ [packet]\<rparr>\<lparr>sent := sent (s\<lparr>sent := sent s @ [packet]\<rparr>) @ packets_from data pad_zeros (offset + PACKET_SIZE)\<rparr>)"
      using "1.IH" [OF True refl refl _ refl nb] sa
      by (simp add: packet_def)
    show ?thesis
      using True sa ih
      by (simp add: send_packets.simps [of data pad_zeros offset s]
          packets_from.simps [of data pad_zeros offset] Let_def packet_def [symmetric])
  qed
qed

lemma send_packets_broken:
  "pipe_broken s \<Longrightarrow> send_packets data pad offset s =
     (if offset < length data then (Some BrokenPipeError, s) else (None, s))"
  by (simp add: send_packets.simps [of data pad offset s] sendall_def Let_def)

lemma send_one_line_sent:
  "\<not> pipe_broken s \<Longrightarrow>
   send_one_line s txt pad = (None, s\<lparr>sent := sent s @ line_packets txt pad\<rparr>)"
  by (simp add: send_one_line_def Let_def line_packets_def line_data_def first_line_def
      send_packets_sent)

lemma line_packets_nonempty: "line_packets txt pad \<noteq> []"
  by (simp add: line_packets_def line_data_def packets_from.simps [of _ pad 0] Let_def)

lemma packets_from_short:
  "data \<noteq> [] \<Longrightarrow> length data < PACKET_SIZE \<Longrightarrow>
   packets_from data pad 0 = [data @ (if pad then replicate (PACKET_SIZE - length data) 0 else [])]"
  by (simp add: packets_from.simps [of data pad 0] packets_from.simps [of data pad PACKET_SIZE])

section \<open>Connection.send\<close>

text \<open>
  C10: a new Connection records the empty string as its last-sent line, so a first
  \<open>send("")\<close> returns without transmitting anything and leaves the connection as it was.
\<close>

theorem fresh_connection_suppresses_empty_line:
  "last_line (Connection_init s) = [] \<and> send (Connection_init s) [] = (None, Connection_init s)"
  by (simp add: Connection_init_def send_def)

text \<open>
  Two sends of the empty line on a new connection leave the wire empty, although one
  transmission of the empty line is the packet holding the newline: the claim C4 fails
  when the line equals the recorded last-sent line.
\<close>

theorem send_twice_counterexample:
  "sent (conn (snd (send (snd (send (Connection_init (peer_sock [])) [])) []))) = []
   \<and> sent (snd (send_one_line (peer_sock []) [] False)) = [[0x0A]]"
proof -
  have "line_packets [] False = [[0x0A]]"
    by (simp add: line_packets_def line_data_def first_line_def splitlines_def utf8_encode_def
        packets_from_short PACKET_SIZE_def)
  moreover have "\<not> pipe_broken (peer_sock [])" by (simp add: peer_sock_def)
  moreover have "sent (peer_sock []) = []" by (simp add: peer_sock_def)
  moreover have "send (Connection_init (peer_sock [])) [] = (None, Connection_init (peer_sock []))"
    by (simp add: send_def Connection_init_def)
  moreover have "sent (conn (Connection_init (peer_sock []))) = []"
    by (simp add: peer_sock_def Connection_init_def setblocking_def)
  ultimately show ?thesis
    by (simp add: send_one_line_sent)
qed

text \<open>
  C4 (amended): on a connection whose socket accepts the write and whose recorded
  last-sent line differs from \<open>L\<close>, \<open>send(L)\<close> twice in succession transmits \<open>L\<close>
  exactly once: the first call appends the packets of \<open>send_one_line(L)\<close> (at least one)
  to the wire and records \<open>L\<close>, the second call changes nothing. When \<open>L\<close> is already
  the recorded last-sent line, the call changes nothing, so nothing is transmitted.
\<close>

theorem send_twice_transmits_once:
  assumes "\<not> pipe_broken (conn c)"
  shows "(line \<noteq> last_line c \<longrightarrow>
            send c line
              = (None, c\<lparr>conn := (conn c)\<lparr>sent := sent (conn c) @ line_packets line False\<rparr>,
                         last_line := line\<rparr>)
          \<and> send (snd (send c line)) line = (None, snd (send c line))
          \<and> send_one_line (conn c) line False = (None, conn (snd (send c line)))
          \<and> line_packets line False \<noteq> [])
     \<and> (line = last_line c \<longrightarrow> send c line = (None, c))"
  using assms
  by (simp add: send_def send_one_line_sent line_packets_nonempty)

theorem send_twice_transmits_once_witness:
  "[104, 105] \<noteq> last_line (Connection_init (peer_sock []))
   \<and> \<not> pipe_broken (conn (Connection_init (peer_sock [])))
   \<and> send (snd (send (Connection_init (peer_sock [])) [104, 105])) [104, 105]
       = (None, snd (send (Connection_init (peer_sock [])) [104, 105]))
   \<and> sent (conn (snd (send (Connection_init (peer_sock [])) [104, 105]))) = [[104, 105, 0x0A]]"
proof -
  let ?c = "Connection_init (peer_sock [])"
  have h1: "[104, 105] \<noteq> last_line ?c" by (simp add: Connection_init_def)
  have h2: "\<not> pipe_broken (conn ?c)"
    by (simp add: Connection_init_def peer_sock_def setblocking_def)
  have p: "line_packets [104, 105] False = [[104, 105, 0x0A]]"
    by (simp add: line_packets_def line_data_def first_line_def splitlines_def utf8_encode_def
        utf8_encode_char_def is_linebreak_def packets_from_short PACKET_SIZE_def)
  have s0: "sent (conn ?c) = []"
    by (simp add: Connection_init_def peer_sock_def setblocking_def)
  from send_twice_transmits_once [OF h2, of "[104, 105]"] h1
  have t: "send ?c [104, 105]
              = (None, ?c\<lparr>conn := (conn ?c)\<lparr>sent := sent (conn ?c) @ line_packets [104, 105] False\<rparr>,
                         last_line := [104, 105]\<rparr>)"
      "send (snd (send ?c [104, 105])) [104, 105] = (None, snd (send ?c [104, 105]))"
    by blast+
  from t(1) have "sent (conn (snd (send ?c [104, 105]))) = [[104, 105, 0x0A]]"
    by (simp add: p s0)
  with h1 h2 t(2) show ?thesis by blast
qed

section \<open>Stitching the time stamps\<close>

lemma round_half_even_mono: "x \<le> y \<Longrightarrow> round_half_even x \<le> round_half_even y"
proof -
  assume xy: "x \<le> y"
  have fl: "\<lfloor>x\<rfloor> \<le> \<lfloor>y\<rfloor>" using xy by (rule floor_mono)
  show ?thesis
  proof (cases "\<lfloor>x\<rfloor> = \<lfloor>y\<rfloor>")
    case True
    with xy show ?thesis
      by (auto simp: round_half_even_def Let_def)
  next
    case False
    with fl have "\<lfloor>x\<rfloor> + 1 \<le> \<lfloor>y\<rfloor>" by simp
    moreover have "round_half_even x \<le> \<lfloor>x\<rfloor> + 1" by (auto simp: round_half_even_def Let_def)
    moreover have "\<lfloor>y\<rfloor> \<le> round_half_even y" by (auto simp: round_half_even_def Let_def)
    ultimately show ?thesis by linarith
  qed
qed

lemma format_output_transcript_Some:
  "seg_start seg = Some s \<Longrightarrow>
   format_output_transcript seg sp =
     (Some (fmt_line (clamp_start (last_end sp) (s * 1000)) (seg_end seg * 1000) (seg_text seg)),
      sp\<lparr>last_end := Some (seg_end seg * 1000),
         err_out := err_out sp @ [fmt_line (clamp_start (last_end sp) (s * 1000)) (seg_end seg * 1000) (seg_text seg)]\<rparr>)"
  by (simp add: format_output_transcript_def clamp_start_def Let_def split: option.splits)

lemma feed_length: "length (feed segs sp) = length segs"
  by (induction segs arbitrary: sp) (auto split: prod.splits)

lemma feed_step:
  "list_all (\<lambda>seg. seg_start seg \<noteq> None) segs \<Longrightarrow> i < length segs \<Longrightarrow>
   feed segs sp ! i = format_output_transcript (segs ! i) (state_before segs sp i)"
proof (induction segs arbitrary: sp i)
  case Nil
  then show ?case by simp
next
  case (Cons seg segs)
  obtain r sp' where f: "format_output_transcript seg sp = (r, sp')"
    by (cases "format_output_transcript seg sp") auto
  show ?case
  proof (cases i)
    case 0
    then show ?thesis by (simp add: f state_before_def)
  next
    case (Suc j)
    with Cons.prems have j: "j < length segs" and all: "list_all (\<lambda>seg. seg_start seg \<noteq> None) segs"
      by auto
    from Cons.IH [OF all j, of sp']
    have "feed segs sp' ! j = format_output_transcript (segs ! j) (state_before segs sp' j)" .
    moreover have "state_before (seg # segs) sp (Suc j) = state_before segs sp' j"
      by (cases j) (simp_all add: state_before_def f)
    ultimately show ?thesis using Suc by (simp add: f)
  qed
qed

text \<open>
  C1: when every segment of a sequence has a start, the \<open>i\<close>-th call of
  \<open>format_output_transcript\<close> returns the line formatted from the clamped start, the
  segment's end and its text, and stores the segment's end (in milliseconds) as
  \<open>last_end\<close>. From the second call on, the stored end is the end emitted just before,
  the emitted start is the maximum of the engine's start and that end, and so it is
  never below the end emitted just before, whatever the engine's time stamps are; the
  same holds of the two numbers as \<open>%1.0f\<close> prints them.
\<close>

theorem stitched_intervals_do_not_overlap:
  assumes "list_all (\<lambda>seg. seg_start seg \<noteq> None) segs" and "i < length segs"
  shows "feed segs sp ! i =
           (Some (fmt_line (clamp_start (last_end (state_before segs sp i)) (the (seg_start (segs ! i)) * 1000))
                    (seg_end (segs ! i) * 1000) (seg_text (segs ! i))),
            (state_before segs sp i)
              \<lparr>last_end := Some (seg_end (segs ! i) * 1000),
               err_out := err_out (state_before segs sp i)
                 @ [fmt_line (clamp_start (last_end (state_before segs sp i)) (the (seg_start (segs ! i)) * 1000))
                      (seg_end (segs ! i) * 1000) (seg_text (segs ! i))]\<rparr>)
       \<and> (0 < i \<longrightarrow>
            last_end (state_before segs sp i) = Some (seg_end (segs ! (i - 1)) * 1000)
          \<and> clamp_start (last_end (state_before segs sp i)) (the (seg_start (segs ! i)) * 1000)
              = max (the (seg_start (segs ! i)) * 1000) (seg_end (segs ! (i - 1)) * 1000)
          \<and> seg_end (segs ! (i - 1)) * 1000
              \<le> clamp_start (last_end (state_before segs sp i)) (the (seg_start (segs ! i)) * 1000)
          \<and> round_half_even (seg_end (segs ! (i - 1)) * 1000)
              \<le> round_half_even (clamp_start (last_end (state_before segs sp i)) (the (seg_start (segs ! i)) * 1000)))"
proof -
  have nth: "\<And>k. k < length segs \<Longrightarrow> \<exists>s. seg_start (segs ! k) = Some s"
    using assms(1) by (auto simp: list_all_length)
  have step: "\<And>k. k < length segs \<Longrightarrow>
      feed segs sp ! k = format_output_transcript (segs ! k) (state_before segs sp k)"
    using assms(1) by (rule feed_step)
  obtain s where s: "seg_start (segs ! i) = Some s" using nth [OF assms(2)] by blast
  have first: "feed segs sp ! i =
           (Some (fmt_line (clamp_start (last_end (state_before segs sp i)) (the (seg_start (segs ! i)) * 1000))
                    (seg_end (segs ! i) * 1000) (seg_text (segs ! i))),
            (state_before segs sp i)
              \<lparr>last_end := Some (seg_end (segs ! i) * 1000),
               err_out := err_out (state_before segs sp i)
                 @ [fmt_line (clamp_start (last_end (state_before segs sp i)) (the (seg_start (segs ! i)) * 1000))
                      (seg_end (segs ! i) * 1000) (seg_text (segs ! i))]\<rparr>)"
    using step [OF assms(2)] format_output_transcript_Some [OF s] s by simp
  have second: "last_end (state_before segs sp i) = Some (seg_end (segs ! (i - 1)) * 1000)" if "0 < i"
  proof -
    define j where "j = i - 1"
    from that assms(2) have k: "j < length segs" by (simp add: j_def)
    obtain s' where s': "seg_start (segs ! j) = Some s'" using nth [OF k] by blast
    have "state_before segs sp i = snd (feed segs sp ! j)"
      using that by (simp add: state_before_def j_def)
    also have "\<dots> = snd (format_output_transcript (segs ! j) (state_before segs sp j))"
      by (simp only: step [OF k])
    finally have "last_end (state_before segs sp i) = Some (seg_end (segs ! j) * 1000)"
      by (simp add: format_output_transcript_Some [OF s'])
    then show ?thesis by (simp only: j_def)
  qed
  show ?thesis
  proof (cases "0 < i")
    case False
    with first show ?thesis by simp
  next
    case True
    note le = second [OF True]
    have c: "clamp_start (last_end (state_before segs sp i)) (the (seg_start (segs ! i)) * 1000)
              = max (the (seg_start (segs ! i)) * 1000) (seg_end (segs ! (i - 1)) * 1000)"
      by (simp add: le clamp_start_def)
    have ge: "seg_end (segs ! (i - 1)) * 1000
              \<le> clamp_start (last_end (state_before segs sp i)) (the (seg_start (segs ! i)) * 1000)"
      by (simp add: c)
    from first le c ge round_half_even_mono [OF ge] show ?thesis by blast
  qed
qed

theorem stitched_intervals_do_not_overlap_witness:
  "list_all (\<lambda>seg. seg_start seg \<noteq> None) regressing_segments
   \<and> Suc 0 < length regressing_segments
   \<and> fst (feed regressing_segments (fresh_session [] 1) ! Suc 0) = Some (fmt_line 5000 2000 [98])
   \<and> last_end (snd (feed regressing_segments (fresh_session [] 1) ! Suc 0)) = Some 2000"
proof -
  have h1: "list_all (\<lambda>seg. seg_start seg \<noteq> None) regressing_segments"
    by (simp add: regressing_segments_def)
  have h2: "Suc 0 < length regressing_segments"
    by (simp add: regressing_segments_def)
  have v: "the (seg_start (regressing_segments ! Suc 0)) * 1000 = 1000"
      "seg_end (regressing_segments ! 0) * 1000 = 5000"
      "seg_end (regressing_segments ! Suc 0) * 1000 = 2000"
      "seg_text (regressing_segments ! Suc 0) = [98]"
    by (simp_all add: regressing_segments_def)
  note t = stitched_intervals_do_not_overlap [OF h1 h2, of "fresh_session [] 1"]
  from t have c: "clamp_start (last_end (state_before regressing_segments (fresh_session [] 1) (Suc 0)))
       (the (seg_start (regressing_segments ! Suc 0)) * 1000)
       = max (the (seg_start (regressing_segments ! Suc 0)) * 1000) (seg_end (regressing_segments ! (Suc 0 - 1)) * 1000)"
    by blast
  have c': "clamp_start (last_end (state_before regressing_segments (fresh_session [] 1) (Suc 0)))
       (the (seg_start (regressing_segments ! Suc 0)) * 1000) = 5000"
    unfolding c by (simp add: v)
  from t have f: "feed regressing_segments (fresh_session [] 1) ! Suc 0 =
           (Some (fmt_line (clamp_start (last_end (state_before regressing_segments (fresh_session [] 1) (Suc 0))) (the (seg_start (regressing_segments ! Suc 0)) * 1000))
                    (seg_end (regressing_segments ! Suc 0) * 1000) (seg_text (regressing_segments ! Suc 0))),
            (state_before regressing_segments (fresh_session [] 1) (Suc 0))
              \<lparr>last_end := Some (seg_end (regressing_segments ! Suc 0) * 1000),
               err_out := err_out (state_before regressing_segments (fresh_session [] 1) (Suc 0))
                 @ [fmt_line (clamp_start (last_end (state_before regressing_segments (fresh_session [] 1) (Suc 0))) (the (seg_start (regressing_segments ! Suc 0)) * 1000))
                      (seg_end (regressing_segments ! Suc 0) * 1000) (seg_text (regressing_segments ! Suc 0))]\<rparr>)"
    by blast
  have c2: "clamp_start (last_end (state_before regressing_segments (fresh_session [] 1) (Suc 0))) 1000
       = 5000"
    using c' by (simp only: v)
  have "fst (feed regressing_segments (fresh_session [] 1) ! Suc 0) = Some (fmt_line 5000 2000 [98])"
    unfolding f v c2 by simp
  moreover have "last_end (snd (feed regressing_segments (fresh_session [] 1) ! Suc 0)) = Some 2000"
    unfolding f v c2 by simp
  ultimately show ?thesis using h1 h2 by blast
qed

text \<open>
  C8: for a segment whose start is \<open>None\<close>, \<open>format_output_transcript\<close> returns \<open>None\<close>
  and \<open>send_result\<close> sends nothing; the session is left exactly as it was, \<open>last_end\<close>
  and the first-chunk flag included. \<open>last_end\<close> changes only for a segment that has a
  start, and the first-chunk flag is never changed here.
\<close>

theorem null_start_leaves_state:
  "(seg_start seg = None \<longrightarrow>
      format_output_transcript seg sp = (None, sp) \<and> send_result seg sp = (None, sp))
   \<and> (last_end (snd (format_output_transcript seg sp)) \<noteq> last_end sp \<longrightarrow> seg_start seg \<noteq> None)
   \<and> is_first (snd (format_output_transcript seg sp)) = is_first sp"
  by (auto simp: format_output_transcript_def send_result_def Let_def split: option.splits)

theorem null_start_leaves_state_witness:
  "seg_start no_text_segment = None
   \<and> format_output_transcript no_text_segment (fresh_session [] 1) = (None, fresh_session [] 1)
   \<and> send_result no_text_segment (fresh_session [] 1) = (None, fresh_session [] 1)"
proof -
  have h: "seg_start no_text_segment = None" by (simp add: no_text_segment_def)
  with null_start_leaves_state [of no_text_segment "fresh_session [] 1"] show ?thesis by blast
qed

section \<open>Connection.non_blocking_receive_audio\<close>

lemma recv_events_wait:
  "recv_events True n (replicate k NoData @ evs) =
     (case recv_events True n evs of (r, rest, w) \<Rightarrow> (r, rest, k + w))"
  by (induction k) (auto split: prod.splits)

lemma recv_events_wait_closed:
  "recv_events True n (replicate k NoData) = (Inr [], [], k)"
  using recv_events_wait [of n k "[]"] by simp

text \<open>
  On a connection whose peer has closed, the read returns the empty byte string, not
  \<open>None\<close>; and where data comes only after a moment without any, the read waits for
  it: the claim C9 fails on both counts.
\<close>

theorem receive_audio_counterexample:
  "fst (non_blocking_receive_audio (Connection_init (peer_sock []))) = Inr (Some [])
   \<and> waited (conn (snd (non_blocking_receive_audio (Connection_init (peer_sock [NoData, Data [1, 2]]))))) = 1"
  by (simp add: non_blocking_receive_audio_def Connection_init_def peer_sock_def setblocking_def
      recv_def Connection_PACKET_SIZE_def)

text \<open>
  C9 (amended): the socket of a Connection is in blocking mode, so
  \<open>non_blocking_receive_audio\<close> waits while no data is available (\<open>k\<close> such moments
  here) and then performs one read of at most \<open>Connection.PACKET_SIZE = 9600000\<close> bytes.
  It returns the bytes read, which is the empty byte string when the peer has closed the
  connection, and it returns \<open>None\<close> exactly when the peer has reset the connection. It
  raises nothing.
\<close>

theorem receive_audio_blocking_read:
  assumes "blocking (conn c)"
    and "incoming (conn c) = replicate k NoData @ evs"
    and "evs = [] \<or> hd evs \<noteq> NoData"
  shows "(evs = [] \<longrightarrow> fst (non_blocking_receive_audio c) = Inr (Some []))
     \<and> (\<forall>bs rest. evs = Data bs # rest \<longrightarrow>
           fst (non_blocking_receive_audio c) = Inr (Some (take Connection_PACKET_SIZE bs)))
     \<and> (fst (non_blocking_receive_audio c) = Inr None) = (\<exists>rest. evs = Reset # rest)
     \<and> (\<forall>e. fst (non_blocking_receive_audio c) \<noteq> Inl e)
     \<and> waited (conn (snd (non_blocking_receive_audio c))) = waited (conn c) + k
     \<and> Connection_PACKET_SIZE = 9600000"
proof (cases evs)
  case Nil
  with assms show ?thesis
    by (simp add: non_blocking_receive_audio_def recv_def recv_events_wait_closed Connection_PACKET_SIZE_def)
next
  case (Cons ev rest)
  with assms(3) have "ev \<noteq> NoData" by simp
  with Cons assms(1,2) show ?thesis
    by (cases ev)
       (simp_all add: non_blocking_receive_audio_def recv_def recv_events_wait Connection_PACKET_SIZE_def)
qed

theorem receive_audio_blocking_read_witness:
  "blocking (conn (Connection_init (peer_sock [NoData, Reset])))
   \<and> incoming (conn (Connection_init (peer_sock [NoData, Reset]))) = replicate 1 NoData @ [Reset]
   \<and> fst (non_blocking_receive_audio (Connection_init (peer_sock [NoData, Reset]))) = Inr None
   \<and> waited (conn (snd (non_blocking_receive_audio (Connection_init (peer_sock [NoData, Reset]))))) = 1"
proof -
  let ?c = "Connection_init (peer_sock [NoData, Reset])"
  have h1: "blocking (conn ?c)" by (simp add: Connection_init_def setblocking_def)
  have h2: "incoming (conn ?c) = replicate 1 NoData @ [Reset]"
    by (simp add: Connection_init_def setblocking_def peer_sock_def)
  have h3: "[Reset] = [] \<or> hd [Reset] \<noteq> NoData" by simp
  have w0: "waited (conn ?c) = 0" by (simp add: Connection_init_def setblocking_def peer_sock_def)
  note t = receive_audio_blocking_read [OF h1 h2 h3]
  from t have "fst (non_blocking_receive_audio ?c) = Inr None" by blast
  moreover from t w0 have "waited (conn (snd (non_blocking_receive_audio ?c))) = 1" by simp
  ultimately show ?thesis using h1 h2 by blast
qed

section \<open>The line that is sent\<close>

text \<open>
  C2 at the input \<open>"a\0b"\<close>: although \<open>replace\<close> would turn the NUL into a newline,
  its result is dropped, the first line is the whole text, and the packet on the wire
  holds the NUL between \<open>a\<close> and \<open>b\<close>.
\<close>

theorem nul_inside_first_line_is_transmitted:
  "send_one_line (peer_sock []) [97, 0, 98] False = (None, (peer_sock [])\<lparr>sent := [[97, 0, 98, 0x0A]]\<rparr>)
   \<and> replace_char 0 0x0A [97, 0, 98] = [97, 0x0A, 98]"
proof -
  have "line_packets [97, 0, 98] False = [[97, 0, 98, 0x0A]]"
    by (simp add: line_packets_def line_data_def first_line_def splitlines_def utf8_encode_def
        utf8_encode_char_def is_linebreak_def packets_from_short PACKET_SIZE_def)
  moreover have "\<not> pipe_broken (peer_sock [])" "sent (peer_sock []) = []"
    by (simp_all add: peer_sock_def)
  ultimately show ?thesis by (simp add: send_one_line_sent replace_char_def)
qed

section \<open>The simulation driver's output\<close>

lemma output_transcript_without_now: "output_transcript elapsed seg None w = (None, w)"
  by (simp add: output_transcript_def)

lemma offline_mode_prints_nothing: "snd (snd (offline_mode ops elapsed a online w)) = w"
  by (simp add: offline_mode_def output_transcript_without_now Let_def
      split: prod.splits sum.splits exn.splits)

lemma output_transcript_with_now:
  "seg_start seg = Some s \<Longrightarrow>
   stdout (snd (output_transcript elapsed seg (Some t) w)) =
     stdout w @ [fmt_f4 (t * 1000) @ [32] @ fmt_f0 (s * 1000) @ [32]
                 @ fmt_f0 (seg_end seg * 1000) @ [32] @ seg_text seg]"
  by (simp add: output_transcript_def Let_def)

text \<open>
  C7 in the offline mode: the engine returns a segment with a start from \<open>process_iter\<close>
  and another from \<open>finish\<close>, both calls are made, and nothing reaches standard output or
  the log file, since both calls of \<open>output_transcript\<close> come without \<open>now\<close>.
\<close>

theorem offline_mode_reports_nothing:
  "offline_mode (scripted hello goodbye) 0 [0, 0] [] \<lparr>stdout = [], logfile = []\<rparr>
     = (None, [CInsert 2, CProcessIter, CFinish], \<lparr>stdout = [], logfile = []\<rparr>)
   \<and> seg_start hello \<noteq> None \<and> seg_start goodbye \<noteq> None"
  by (simp add: offline_mode_def scripted_def output_transcript_without_now hello_def goodbye_def)

section \<open>The session loop\<close>

lemma dec_digits_small: "n < 10 \<Longrightarrow> dec_digits n = [48 + n]"
  by (simp add: dec_digits.simps [of n])

lemma dec_digits_big: "10 \<le> n \<Longrightarrow> dec_digits n = dec_digits (n div 10) @ [48 + n mod 10]"
  by (simp add: dec_digits.simps [of n])

lemma fmt_hello: "fmt_line 0 1000 [104, 105] = [48, 32, 49, 48, 48, 48, 32, 104, 105]"
  by (simp add: fmt_line_def fmt_f0_def round_half_even_def dec_digits_small dec_digits_big)

lemma pcm_zero: "pcm16le [0, 0, 0, 0] = [0, 0]"
  by simp

lemma first_chunk:
  "receive_audio_chunk pcm16le (one_block_session\<lparr>online_asr_proc := [CInit]\<rparr>) =
     (Inr (Some [0, 0]),
      one_block_session\<lparr>online_asr_proc := [CInit], is_first := False,
        connection := Connection_init (peer_sock [])\<rparr>)"
  by (simp add: receive_audio_chunk_def one_block_session_def ServerProcessor_init_def
      Connection_init_def peer_sock_def setblocking_def SAMPLING_RATE_def
      collect_audio.simps [of _ _ "[]"] collect_audio.simps [of _ _ "[_]"]
      non_blocking_receive_audio_def recv_def Connection_PACKET_SIZE_def Let_def)

lemma hello_packets: "line_packets [48, 32, 49, 48, 48, 48, 32, 104, 105] False
    = [[48, 32, 49, 48, 48, 48, 32, 104, 105, 10]]"
  by (simp add: line_packets_def line_data_def first_line_def splitlines_def utf8_encode_def
      utf8_encode_char_def is_linebreak_def packets_from_short PACKET_SIZE_def)

lemma second_chunk:
  "blocking (conn (connection sp)) \<Longrightarrow> incoming (conn (connection sp)) = [] \<Longrightarrow>
   receive_audio_chunk decode sp = (Inr None, sp)"
  by (simp add: receive_audio_chunk_def Let_def collect_audio.simps [of _ _ "[]"]
      non_blocking_receive_audio_def recv_def)

lemma process_loop_ignores_finish:
  "process_loop decode (ops\<lparr>finish := f\<rparr>) sp = process_loop decode ops sp"
proof (induction decode ops sp rule: process_loop.induct)
  case (1 decode ops sp)
  show ?case
  proof (cases "receive_audio_chunk decode sp")
    case (Pair r sp1)
    show ?thesis
    proof (cases r)
      case (Inl e)
      with Pair show ?thesis
        by (simp add: process_loop.simps [of decode _ sp])
    next
      case (Inr y)
      show ?thesis
      proof (cases y)
        case None
        with Pair Inr show ?thesis
          by (simp add: process_loop.simps [of decode _ sp])
      next
        case (Some a)
        obtain r2 eng where it: "process_iter ops (insert_audio_chunk ops a (online_asr_proc sp1)) = (r2, eng)"
          by (cases "process_iter ops (insert_audio_chunk ops a (online_asr_proc sp1))") auto
        show ?thesis
        proof (cases r2)
          case (Inl e)
          with Pair Inr Some it show ?thesis
            by (simp add: process_loop.simps [of decode _ sp])
        next
          case r2: (Inr seg)
          obtain r3 sp2 where sr: "send_result seg (sp1\<lparr>online_asr_proc := eng\<rparr>) = (r3, sp2)"
            by (cases "send_result seg (sp1\<lparr>online_asr_proc := eng\<rparr>)") auto
          show ?thesis
          proof (cases r3)
            case None
            have "process_loop decode (ops\<lparr>finish := f\<rparr>) sp2 = process_loop decode ops sp2"
              using "1.IH" [OF Pair [symmetric] Inr Some it [symmetric] r2 sr [symmetric] None] .
            with Pair Inr Some it r2 sr None show ?thesis
              by (simp add: process_loop.simps [of decode _ sp])
          next
            case (Some e)
            with Pair Inr \<open>y = Some a\<close> it r2 sr show ?thesis
              by (cases e) (simp_all add: process_loop.simps [of decode _ sp])
          qed
        qed
      qed
    qed
  qed
qed

lemma process_ignores_finish:
  "process decode (ops\<lparr>finish := f\<rparr>) sp = process decode ops sp"
  by (simp add: process_def process_loop_ignores_finish)

text \<open>
  C6 on a session whose peer delivers one chunk and closes: the loop ends, the engine has
  seen \<open>init\<close>, one \<open>insert_audio_chunk\<close> and one \<open>process_iter\<close> but no \<open>finish\<close>,
  and the only line on the wire is the one of the \<open>process_iter\<close> segment; the segment
  that \<open>finish\<close> would flush is never asked for.
\<close>

theorem session_ends_without_finish:
  "fst (process pcm16le (scripted hello goodbye) one_block_session) = None
   \<and> online_asr_proc (snd (process pcm16le (scripted hello goodbye) one_block_session))
       = [CInit, CInsert 2, CProcessIter]
   \<and> sent (conn (connection (snd (process pcm16le (scripted hello goodbye) one_block_session))))
       = [[48, 32, 49, 48, 48, 48, 32, 104, 105, 10]]
   \<and> seg_start goodbye \<noteq> None"
proof -
  let ?ops = "scripted hello goodbye"
  define sp0 where "sp0 = one_block_session\<lparr>online_asr_proc := [CInit]\<rparr>"
  define sp1 where "sp1 = one_block_session\<lparr>online_asr_proc := [CInit], is_first := False,
        connection := Connection_init (peer_sock [])\<rparr>"
  define sp2 where "sp2 = snd (send_result hello (sp1\<lparr>online_asr_proc := [CInit, CInsert 2, CProcessIter]\<rparr>))"
  have init: "process pcm16le ?ops one_block_session = process_loop pcm16le ?ops sp0"
    by (simp add: process_def scripted_def one_block_session_def ServerProcessor_init_def sp0_def)
  have rc: "receive_audio_chunk pcm16le sp0 = (Inr (Some [0, 0]), sp1)"
    unfolding sp0_def sp1_def by (rule first_chunk)
  have it: "process_iter ?ops (insert_audio_chunk ?ops [0, 0] (online_asr_proc sp1))
      = (Inr hello, [CInit, CInsert 2, CProcessIter])"
    by (simp add: scripted_def sp1_def)
  have sr: "send_result hello (sp1\<lparr>online_asr_proc := [CInit, CInsert 2, CProcessIter]\<rparr>) = (None, sp2)"
    and eng: "online_asr_proc sp2 = [CInit, CInsert 2, CProcessIter]"
    and wire: "sent (conn (connection sp2)) = [[48, 32, 49, 48, 48, 48, 32, 104, 105, 10]]"
    and blk: "blocking (conn (connection sp2))"
    and inc: "incoming (conn (connection sp2)) = []"
    unfolding sp2_def sp1_def
    by (simp_all add: send_result_def format_output_transcript_def hello_def Let_def fmt_hello
        one_block_session_def ServerProcessor_init_def send_def Connection_init_def
        send_one_line_sent peer_sock_def setblocking_def hello_packets)
  have fin: "process_loop pcm16le ?ops sp2 = (None, sp2)"
    by (simp add: process_loop.simps [of _ _ sp2] second_chunk [OF blk inc])
  have "process_loop pcm16le ?ops sp0 = (None, sp2)"
    by (simp add: process_loop.simps [of _ _ sp0] rc it sr fin)
  with init eng wire show ?thesis by (simp add: goodbye_def)
qed

section \<open>The audio accumulator\<close>

lemma non_blocking_receive_audio_closes:
  "closes (incoming (conn c)) \<Longrightarrow>
   \<exists>c'. incoming (conn c') = tl (incoming (conn c))
      \<and> (non_blocking_receive_audio c = (Inr None, c')
         \<or> non_blocking_receive_audio c = (Inr (Some []), c'))"
  by (auto simp: closes_def non_blocking_receive_audio_def recv_def
      split: list.splits recv_event.splits)

lemma non_blocking_receive_audio_block:
  "incoming (conn c) = Data b # evs \<Longrightarrow> length b \<le> Connection_PACKET_SIZE \<Longrightarrow>
   non_blocking_receive_audio c = (Inr (Some b), c\<lparr>conn := (conn c)\<lparr>incoming := evs, waited := waited (conn c)\<rparr>\<rparr>)"
  by (simp add: non_blocking_receive_audio_def recv_def)

lemma collect_audio_partial:
  "incoming (conn c) = map Data blocks @ evs \<Longrightarrow> closes evs \<Longrightarrow> whole_blocks blocks \<Longrightarrow>
   real (sum_list (map length out) + sum_list (map (\<lambda>b. length (decode b)) blocks)) < minlimit \<Longrightarrow>
   \<exists>c'. collect_audio decode minlimit out c = (None, out @ map decode blocks, c')
      \<and> incoming (conn c') = tl evs"
proof (induction blocks arbitrary: out c)
  case Nil
  then have lt: "real (sum_list (map length out)) < minlimit" by simp
  from Nil have inc: "incoming (conn c) = evs" and "closes (incoming (conn c))" by simp_all
  from non_blocking_receive_audio_closes [OF this(2)] lt inc show ?case
    by (auto simp: collect_audio.simps [of decode minlimit out c])
next
  case (Cons b blocks)
  then have lt: "real (sum_list (map length out)) < minlimit" by simp
  from Cons.prems have b: "b \<noteq> []" "length b \<le> Connection_PACKET_SIZE" and wb: "whole_blocks blocks"
    by (simp_all add: whole_blocks_def)
  let ?c1 = "c\<lparr>conn := (conn c)\<lparr>incoming := map Data blocks @ evs, waited := waited (conn c)\<rparr>\<rparr>"
  have nb: "non_blocking_receive_audio c = (Inr (Some b), ?c1)"
    using Cons.prems(1) b(2) by (simp add: non_blocking_receive_audio_block)
  have inc: "incoming (conn ?c1) = map Data blocks @ evs" by simp
  have tot: "real (sum_list (map length (out @ [decode b])) + sum_list (map (\<lambda>b. length (decode b)) blocks)) < minlimit"
    using Cons.prems(4) by (simp add: add.assoc)
  from Cons.IH [OF inc Cons.prems(2) wb tot]
  obtain c' where "collect_audio decode minlimit (out @ [decode b]) ?c1
      = (None, (out @ [decode b]) @ map decode blocks, c')" "incoming (conn c') = tl evs" by blast
  with lt nb b(1) show ?case
    by (simp add: collect_audio.simps [of decode minlimit out c])
qed

lemma receive_audio_chunk_Some_not_first:
  "receive_audio_chunk decode sp0 = (Inr (Some a), sp) \<Longrightarrow> \<not> is_first sp"
  by (auto simp: receive_audio_chunk_def Let_def split: prod.splits option.splits if_splits)

text \<open>
  C5: the peer delivers blocks that decode to fewer than \<open>min_chunk * 16000\<close> samples in
  all and then closes or resets the connection. While the session is on its first
  accumulation, \<open>receive_audio_chunk\<close> returns \<open>None\<close>. A session state reached by a
  successful accumulation is no longer on its first one, and there the call returns the
  partial buffer, the decoded blocks in order; it returns \<open>None\<close> only if no block at
  all came before the close.
\<close>

theorem first_chunk_gating:
  assumes "incoming (conn (connection sp)) = map Data blocks @ evs"
    and "closes evs"
    and "whole_blocks blocks"
    and "real (sum_list (map (\<lambda>b. length (decode b)) blocks)) < min_chunk sp * real SAMPLING_RATE"
  shows "(is_first sp \<longrightarrow> fst (receive_audio_chunk decode sp) = Inr None)
     \<and> ((\<exists>sp0 a. receive_audio_chunk decode sp0 = (Inr (Some a), sp)) \<longrightarrow> \<not> is_first sp)
     \<and> (\<not> is_first sp \<longrightarrow>
          fst (receive_audio_chunk decode sp)
            = (if blocks = [] then Inr None else Inr (Some (concat (map decode blocks)))))
     \<and> incoming (conn (connection (snd (receive_audio_chunk decode sp)))) = tl evs"
proof -
  from collect_audio_partial [of "connection sp" blocks evs "[]" decode "min_chunk sp * real SAMPLING_RATE"] assms
  obtain c' where c: "collect_audio decode (min_chunk sp * real SAMPLING_RATE) [] (connection sp)
      = (None, map decode blocks, c')" and left: "incoming (conn c') = tl evs"
    by auto
  have len: "length (concat (map decode blocks)) = sum_list (map (\<lambda>b. length (decode b)) blocks)"
    by (simp add: length_concat comp_def)
  have first: "is_first sp \<longrightarrow> fst (receive_audio_chunk decode sp) = Inr None"
    using c assms(4) by (simp add: receive_audio_chunk_def Let_def len)
  have later: "\<not> is_first sp \<longrightarrow>
          fst (receive_audio_chunk decode sp)
            = (if blocks = [] then Inr None else Inr (Some (concat (map decode blocks))))"
    using c by (simp add: receive_audio_chunk_def Let_def)
  have used: "incoming (conn (connection (snd (receive_audio_chunk decode sp)))) = tl evs"
    using c left by (simp add: receive_audio_chunk_def Let_def)
  from first later used receive_audio_chunk_Some_not_first show ?thesis by blast
qed

theorem first_chunk_gating_witness:
  "closes [] \<and> whole_blocks [[0, 0]]
   \<and> fst (receive_audio_chunk pcm16le (fresh_session [Data [0, 0]] 1)) = Inr None
   \<and> fst (receive_audio_chunk pcm16le ((fresh_session [Data [0, 0]] 1)\<lparr>is_first := False\<rparr>))
       = Inr (Some [0])"
proof -
  let ?sp = "fresh_session [Data [0, 0]] 1"
  let ?sp' = "?sp\<lparr>is_first := False\<rparr>"
  have h1: "incoming (conn (connection ?sp)) = map Data [[0, 0]] @ []"
    and h1': "incoming (conn (connection ?sp')) = map Data [[0, 0]] @ []"
    by (simp_all add: fresh_session_def ServerProcessor_init_def Connection_init_def
        setblocking_def peer_sock_def)
  have h2: "closes []" by (simp add: closes_def)
  have h3: "whole_blocks [[0, 0]]" by (simp add: whole_blocks_def Connection_PACKET_SIZE_def)
  have h4: "real (sum_list (map (\<lambda>b. length (pcm16le b)) [[0, 0]])) < min_chunk ?sp * real SAMPLING_RATE"
    and h4': "real (sum_list (map (\<lambda>b. length (pcm16le b)) [[0, 0]])) < min_chunk ?sp' * real SAMPLING_RATE"
    by (simp_all add: fresh_session_def ServerProcessor_init_def SAMPLING_RATE_def)
  have f: "is_first ?sp" "\<not> is_first ?sp'"
    by (simp_all add: fresh_session_def ServerProcessor_init_def)
  from first_chunk_gating [OF h1 h2 h3 h4] f(1)
  have a: "fst (receive_audio_chunk pcm16le ?sp) = Inr None" by blast
  from first_chunk_gating [OF h1' h2 h3 h4'] f(2)
  have "fst (receive_audio_chunk pcm16le ?sp') = (if [[0, 0]] = ([] :: bytes list) then Inr None else Inr (Some (concat (map pcm16le [[0, 0]]))))"
    by blast
  then have b: "fst (receive_audio_chunk pcm16le ?sp') = Inr (Some [0])" by simp
  from a b h2 h3 show ?thesis by blast
qed

section \<open>The packet round trip\<close>

text \<open>
  Decoding undoes encoding up to the replacement of surrogates, and the encoding of a
  text without NUL holds no NUL byte.
\<close>

lemma unat_byte: "x < 256 \<Longrightarrow> unat (of_nat x :: byte) = x"
  by (simp add: unat_of_nat take_bit_nat_eq_self)

lemma decode_one:
  "unat b1 = a \<Longrightarrow> a < 0x80 \<Longrightarrow> utf8_decode (b1 # rest) = a # utf8_decode rest"
  by simp

lemma decode_two:
  assumes "unat b1 = 0xC0 + a" "unat b2 = 0x80 + b" "2 \<le> a" "a < 32" "b < 64"
  shows "utf8_decode (b1 # b2 # rest) = (a * 64 + b) # utf8_decode rest"
  using assms by (simp add: is_continuation_def)

lemma decode_three:
  assumes "unat b1 = 0xE0 + a" "unat b2 = 0x80 + b" "unat b3 = 0x80 + d"
    and "a < 16" "b < 64" "d < 64" "a = 0 \<longrightarrow> 32 \<le> b" "a = 13 \<longrightarrow> b < 32"
  shows "utf8_decode (b1 # b2 # b3 # rest) = (a * 4096 + b * 64 + d) # utf8_decode rest"
  using assms by (auto simp: is_continuation_def Let_def)

lemma decode_four:
  assumes "unat b1 = 0xF0 + a" "unat b2 = 0x80 + b" "unat b3 = 0x80 + d" "unat b4 = 0x80 + e"
    and "a < 5" "b < 64" "d < 64" "e < 64" "a = 0 \<longrightarrow> 16 \<le> b" "a = 4 \<longrightarrow> b < 16"
  shows "utf8_decode (b1 # b2 # b3 # b4 # rest)
         = (a * 262144 + b * 4096 + d * 64 + e) # utf8_decode rest"
  using assms by (auto simp: is_continuation_def Let_def)


lemma div_4096: "(c::nat) div 4096 = c div 64 div 64"
  by (simp add: div_mult2_eq [symmetric])

lemma div_262144: "(c::nat) div 262144 = c div 64 div 64 div 64"
  by (simp add: div_mult2_eq [symmetric])

lemma encode_char_decodes:
  assumes "c < 0x110000"
  shows "utf8_decode (utf8_encode_char c @ rest) = lossy c # utf8_decode rest
         \<and> (c \<noteq> 0 \<longrightarrow> 0 \<notin> set (utf8_encode_char c))
         \<and> (c \<noteq> 0x0A \<longrightarrow> 0x0A \<notin> set (utf8_encode_char c))"
proof -
  define q1 where "q1 = c div 64"
  define e where "e = c mod 64"
  define q2 where "q2 = q1 div 64"
  define d where "d = q1 mod 64"
  define q3 where "q3 = q2 div 64"
  define b where "b = q2 mod 64"
  have r1: "c = q1 * 64 + e" "e < 64" by (simp_all add: q1_def e_def)
  have r2: "q1 = q2 * 64 + d" "d < 64" by (simp_all add: q2_def d_def)
  have r3: "q2 = q3 * 64 + b" "b < 64" by (simp_all add: q3_def b_def)
  have n1: "c div 64 = q1" "c mod 64 = e" by (simp_all add: q1_def e_def)
  have n2: "c div 4096 = q2" "(c div 64) mod 64 = d"
    by (simp_all add: div_4096 q1_def q2_def d_def)
  have n3: "c div 262144 = q3" "(c div 4096) mod 64 = b"
    by (simp_all add: div_262144 div_4096 q1_def q2_def q3_def b_def)
  have n4: "q1 mod 64 = d" "q2 mod 64 = b" by (simp_all add: d_def b_def)
  consider "c < 0x80" | "0x80 \<le> c" "c < 0x800" | "0x800 \<le> c" "is_surrogate c"
    | "0x800 \<le> c" "\<not> is_surrogate c" "c < 0x10000" | "0x10000 \<le> c"
    by linarith
  then show ?thesis
  proof cases
    case 1
    have enc: "utf8_encode_char c = [of_nat c]"
      using 1 by (simp add: utf8_encode_char_def)
    have u: "unat (of_nat c :: byte) = c" by (rule unat_byte) (use 1 in simp)
    from decode_one [OF u 1] 1
    have A: "utf8_decode (utf8_encode_char c @ rest) = lossy c # utf8_decode rest"
      by (simp only: enc append_Cons append_Nil) (simp add: lossy_def is_surrogate_def)
    have B: "c \<noteq> 0 \<longrightarrow> 0 \<notin> set (utf8_encode_char c)"
      unfolding enc using u by auto
    have C: "c \<noteq> 0x0A \<longrightarrow> 0x0A \<notin> set (utf8_encode_char c)"
      unfolding enc using u by auto
    from A B C show ?thesis by blast
  next
    case 2
    define b1 :: byte where "b1 = of_nat (0xC0 + q1)"
    define b2 :: byte where "b2 = of_nat (0x80 + e)"
    have enc: "utf8_encode_char c = [b1, b2]"
      using 2 by (simp add: utf8_encode_char_def n1 b1_def b2_def)
    have bound: "2 \<le> q1" "q1 < 32" using 2 r1 by linarith+
    have u1: "unat b1 = 0xC0 + q1" unfolding b1_def by (rule unat_byte) (use bound in simp)
    have u2: "unat b2 = 0x80 + e" unfolding b2_def by (rule unat_byte) (use r1 in simp)
    have "utf8_decode (b1 # b2 # rest) = (q1 * 64 + e) # utf8_decode rest"
      by (rule decode_two [OF u1 u2 bound r1(2)])
    moreover have "q1 * 64 + e = c" using r1(1) by simp
    moreover have "lossy c = c" using 2 by (simp add: lossy_def is_surrogate_def)
    ultimately have A: "utf8_decode (utf8_encode_char c @ rest) = lossy c # utf8_decode rest"
      by (simp only: enc append_Cons append_Nil)
    have B: "0 \<notin> set (utf8_encode_char c)"
      unfolding enc using u1 u2 by auto
    have C: "0x0A \<notin> set (utf8_encode_char c)"
      unfolding enc using u1 u2 by auto
    from A B C show ?thesis by blast
  next
    case 3
    then have enc: "utf8_encode_char c = [0x3F]"
      by (simp add: utf8_encode_char_def)
    from 3 show ?thesis
      by (simp only: enc append_Cons append_Nil) (simp add: lossy_def)
  next
    case 4
    define b1 :: byte where "b1 = of_nat (0xE0 + q2)"
    define b2 :: byte where "b2 = of_nat (0x80 + d)"
    define b3 :: byte where "b3 = of_nat (0x80 + e)"
    have enc: "utf8_encode_char c = [b1, b2, b3]"
      using 4 by (simp add: utf8_encode_char_def n1 n2 n4 b1_def b2_def b3_def)
    have bound: "q2 < 16" using 4 r1 r2 by linarith
    have lo: "q2 = 0 \<longrightarrow> 32 \<le> d" using 4 r1 r2 by auto
    have "c < 0xD800 \<or> 0xE000 \<le> c" using 4 by (simp add: is_surrogate_def) linarith
    then have hi: "q2 = 13 \<longrightarrow> d < 32" using r1 r2 by auto
    have u1: "unat b1 = 0xE0 + q2" unfolding b1_def by (rule unat_byte) (use bound in simp)
    have u2: "unat b2 = 0x80 + d" unfolding b2_def by (rule unat_byte) (use r2 in simp)
    have u3: "unat b3 = 0x80 + e" unfolding b3_def by (rule unat_byte) (use r1 in simp)
    have "utf8_decode (b1 # b2 # b3 # rest) = (q2 * 4096 + d * 64 + e) # utf8_decode rest"
      by (rule decode_three [OF u1 u2 u3 bound r2(2) r1(2) lo hi])
    moreover have "q2 * 4096 + d * 64 + e = c" using r1(1) r2(1) by simp
    moreover have "lossy c = c" using 4 by (simp add: lossy_def)
    ultimately have A: "utf8_decode (utf8_encode_char c @ rest) = lossy c # utf8_decode rest"
      by (simp only: enc append_Cons append_Nil)
    have B: "0 \<notin> set (utf8_encode_char c)"
      unfolding enc using u1 u2 u3 by auto
    have C: "0x0A \<notin> set (utf8_encode_char c)"
      unfolding enc using u1 u2 u3 by auto
    from A B C show ?thesis by blast
  next
    case 5
    define b1 :: byte where "b1 = of_nat (0xF0 + q3)"
    define b2 :: byte where "b2 = of_nat (0x80 + b)"
    define b3 :: byte where "b3 = of_nat (0x80 + d)"
    define b4 :: byte where "b4 = of_nat (0x80 + e)"
    have ns: "\<not> is_surrogate c" using 5 by (simp add: is_surrogate_def)
    have enc: "utf8_encode_char c = [b1, b2, b3, b4]"
      using 5 ns by (simp add: utf8_encode_char_def n1 n2 n3 n4 b1_def b2_def b3_def b4_def)
    have bound: "q3 < 5" using assms r1 r2 r3 by linarith
    have lo: "q3 = 0 \<longrightarrow> 16 \<le> b" using 5 r1 r2 r3 by auto
    have hi: "q3 = 4 \<longrightarrow> b < 16" using assms r1 r2 r3 by auto
    have u1: "unat b1 = 0xF0 + q3" unfolding b1_def by (rule unat_byte) (use bound in simp)
    have u2: "unat b2 = 0x80 + b" unfolding b2_def by (rule unat_byte) (use r3 in simp)
    have u3: "unat b3 = 0x80 + d" unfolding b3_def by (rule unat_byte) (use r2 in simp)
    have u4: "unat b4 = 0x80 + e" unfolding b4_def by (rule unat_byte) (use r1 in simp)
    have "utf8_decode (b1 # b2 # b3 # b4 # rest)
          = (q3 * 262144 + b * 4096 + d * 64 + e) # utf8_decode rest"
      by (rule decode_four [OF u1 u2 u3 u4 bound r3(2) r2(2) r1(2) lo hi])
    moreover have "q3 * 262144 + b * 4096 + d * 64 + e = c" using r1(1) r2(1) r3(1) by simp
    moreover have "lossy c = c" using ns by (simp add: lossy_def)
    ultimately have A: "utf8_decode (utf8_encode_char c @ rest) = lossy c # utf8_decode rest"
      by (simp only: enc append_Cons append_Nil)
    have B: "0 \<notin> set (utf8_encode_char c)"
      unfolding enc using u1 u2 u3 u4 by auto
    have C: "0x0A \<notin> set (utf8_encode_char c)"
      unfolding enc using u1 u2 u3 u4 by auto
    from A B C show ?thesis by blast
  qed
qed

lemma decode_encode:
  "valid_text t \<Longrightarrow> utf8_decode (utf8_encode t @ rest) = map lossy t @ utf8_decode rest"
  by (induction t) (simp_all add: utf8_encode_def valid_text_def encode_char_decodes)

lemma encode_nul_free: "valid_text t \<Longrightarrow> 0 \<notin> set t \<Longrightarrow> 0 \<notin> set (utf8_encode t)"
  by (induction t) (auto simp: utf8_encode_def valid_text_def dest: encode_char_decodes)

lemma encode_newline_free:
  "valid_text t \<Longrightarrow> 0x0A \<notin> set t \<Longrightarrow> 0x0A \<notin> set (utf8_encode t)"
  by (induction t) (auto simp: utf8_encode_def valid_text_def dest: encode_char_decodes)

lemma decode_zeros: "utf8_decode (replicate k 0) = replicate k 0"
  by (induction k) simp_all

lemma splitlines_from_first:
  "(case splitlines_from cur t of [] \<Rightarrow> [] | l # ls \<Rightarrow> l)
     = rev cur @ takeWhile (\<lambda>c. \<not> is_linebreak c) t"
  by (induction cur t rule: splitlines_from.induct)
     (auto simp: is_linebreak_def split: list.splits)

lemma first_line_takeWhile: "first_line t = takeWhile (\<lambda>c. \<not> is_linebreak c) t"
  using splitlines_from_first [of "[]" t] by (simp add: first_line_def splitlines_def)

lemma first_line_no_newline: "0x0A \<notin> set (first_line t)"
proof
  assume "0x0A \<in> set (first_line t)"
  then have "\<not> is_linebreak 0x0A"
    unfolding first_line_takeWhile by (rule set_takeWhileD [THEN conjunct2])
  then show False by (simp add: is_linebreak_def)
qed

lemma payload_newline_free:
  "valid_text (first_line t) \<Longrightarrow> 0x0A \<notin> set (utf8_encode (first_line t))"
  by (rule encode_newline_free [OF _ first_line_no_newline])

lemma strip_padding:
  "t = [] \<or> hd t \<noteq> 0 \<Longrightarrow> strip_char 0 (t @ 0x0A # replicate k 0) = t @ [0x0A]"
proof -
  assume z: "t = [] \<or> hd t \<noteq> 0"
  have front: "dropWhile (\<lambda>x. x = 0) (t @ 0x0A # replicate k 0) = t @ 0x0A # replicate k 0"
    using z by (cases t) auto
  have behind: "dropWhile (\<lambda>x. x = 0) (replicate k 0 @ 0x0A # rev t) = 0x0A # rev t"
    by (induction k) simp_all
  show ?thesis
    by (simp add: strip_char_def front behind)
qed

lemma split_terminated:
  "sep \<notin> set t \<Longrightarrow> split_char sep (t @ [sep]) = [t, []]"
  by (induction t) auto

text \<open>
  With padding, the data of a line ends in its only NUL byte: the packets before the last
  hold no NUL, the last one does, and together they are the data followed by the padding.
  \<open>receive_one_line\<close> reads exactly these packets.
\<close>

lemma packets_from_terminated:
  assumes "data = d0 @ [0]" and "0 \<notin> set d0"
  shows "offset < length data \<Longrightarrow>
     \<exists>pre p k. packets_from data True offset = pre @ [p] \<and> list_all quiet_packet pre
        \<and> p \<noteq> [] \<and> length p \<le> PACKET_SIZE \<and> 0 \<in> set p
        \<and> concat pre @ p = drop offset data @ replicate k 0"
proof (induction "length data - offset" arbitrary: offset rule: less_induct)
  case less
  let ?rem = "length data - offset"
  have last_in: "0 \<in> set (drop offset data)"
    using less.prems assms(1) by simp
  consider "?rem < PACKET_SIZE" | "?rem = PACKET_SIZE" | "PACKET_SIZE < ?rem" by linarith
  then show ?case
  proof cases
    case 1
    then have nxt: "packets_from data True (offset + PACKET_SIZE) = []"
      by (simp add: packets_from.simps [of data True "offset + PACKET_SIZE"])
    have "packets_from data True offset
        = [] @ [drop offset data @ replicate (PACKET_SIZE - ?rem) 0]"
      using less.prems 1 nxt by (simp add: packets_from.simps [of data True offset] Let_def)
    moreover have "length (drop offset data @ replicate (PACKET_SIZE - ?rem) 0) \<le> PACKET_SIZE"
      using 1 by simp
    ultimately show ?thesis
      using last_in less.prems by (intro exI [of _ "[]"] exI conjI) auto
  next
    case 2
    then have nxt: "packets_from data True (offset + PACKET_SIZE) = []"
      by (simp add: packets_from.simps [of data True "offset + PACKET_SIZE"])
    have tk: "take PACKET_SIZE (drop offset data) = drop offset data"
      using 2 by simp
    have "packets_from data True offset = [] @ [drop offset data]"
      using less.prems 2 nxt tk by (simp add: packets_from.simps [of data True offset] Let_def)
    moreover have "length (drop offset data) \<le> PACKET_SIZE" using 2 by simp
    moreover have "concat [] @ drop offset data = drop offset data @ replicate 0 0" by simp
    ultimately show ?thesis
      using last_in less.prems by (intro exI [of _ "[]"] exI [of _ "drop offset data"] exI [of _ 0] conjI) auto
  next
    case 3
    let ?pk = "take PACKET_SIZE (drop offset data)"
    have lt: "offset + PACKET_SIZE < length data" using 3 by simp
    have pos: "0 < PACKET_SIZE" by (simp add: PACKET_SIZE_def)
    have dec: "length data - (offset + PACKET_SIZE) < length data - offset"
      using lt pos by simp
    from less.hyps [OF dec lt]
    obtain pre p k where ih: "packets_from data True (offset + PACKET_SIZE) = pre @ [p]"
        "list_all quiet_packet pre" "p \<noteq> []" "length p \<le> PACKET_SIZE" "0 \<in> set p"
        "concat pre @ p = drop (offset + PACKET_SIZE) data @ replicate k 0"
      by blast
    have inner: "?pk = take PACKET_SIZE (drop offset d0)"
      using lt assms(1) by simp
    have "set ?pk \<subseteq> set d0"
      unfolding inner by (meson set_take_subset set_drop_subset subset_trans)
    then have nz: "0 \<notin> set ?pk" using assms(2) by blast
    have len: "length ?pk = PACKET_SIZE" using 3 by simp
    have q: "quiet_packet ?pk"
      using nz len pos by (auto simp: quiet_packet_def)
    have unfold: "packets_from data True offset = (?pk # pre) @ [p]"
      using less.prems 3 ih(1) by (simp add: packets_from.simps [of data True offset] Let_def)
    have "?pk @ drop (offset + PACKET_SIZE) data = drop offset data"
      by (metis add.commute append_take_drop_id drop_drop)
    then have cc: "concat (?pk # pre) @ p = drop offset data @ replicate k 0"
      using ih(6) by simp
    from unfold q ih(2-5) cc show ?thesis
      by (intro exI [of _ "?pk # pre"] exI [of _ p] exI [of _ k] conjI) simp_all
  qed
qed

lemma recv_whole_block:
  "incoming s = Data q # evs \<Longrightarrow> length q \<le> n \<Longrightarrow>
   recv n s = (Inr q, s\<lparr>incoming := evs, waited := waited s\<rparr>)"
  by (simp add: recv_def)

lemma receive_packets_stream:
  "list_all quiet_packet pre \<Longrightarrow> p \<noteq> [] \<Longrightarrow> length p \<le> PACKET_SIZE \<Longrightarrow> 0 \<in> set p \<Longrightarrow>
   incoming s = map Data pre @ Data p # evs \<Longrightarrow>
   receive_packets acc s
     = (Inr (Some (acc @ concat pre @ p)), s\<lparr>incoming := evs, waited := waited s\<rparr>)"
proof (induction pre arbitrary: acc s)
  case Nil
  then have "recv PACKET_SIZE s = (Inr p, s\<lparr>incoming := evs, waited := waited s\<rparr>)"
    by (simp add: recv_whole_block)
  with Nil show ?case
    by (simp add: receive_packets.simps [of acc s])
next
  case (Cons q pre)
  from Cons.prems(1) have qq: "quiet_packet q" and rest: "list_all quiet_packet pre"
    by simp_all
  from qq have q: "q \<noteq> []" "length q \<le> PACKET_SIZE" "0 \<notin> set q"
    by (simp_all add: quiet_packet_def)
  let ?s1 = "s\<lparr>incoming := map Data pre @ Data p # evs, waited := waited s\<rparr>"
  have r: "recv PACKET_SIZE s = (Inr q, ?s1)"
    using Cons.prems(5) q(2) by (simp add: recv_whole_block)
  have "receive_packets (acc @ q) ?s1
      = (Inr (Some ((acc @ q) @ concat pre @ p)), ?s1\<lparr>incoming := evs, waited := waited ?s1\<rparr>)"
    by (rule Cons.IH [OF rest Cons.prems(2,3,4)]) simp
  with r q show ?case
    by (simp add: receive_packets.simps [of acc s])
qed


lemma packets_from_quiet:
  assumes "0 \<notin> set data"
  shows "list_all quiet_packet (packets_from data False offset)"
proof (induction "length data - offset" arbitrary: offset rule: less_induct)
  case less
  show ?case
  proof (cases "offset < length data")
    case False
    then show ?thesis by (simp add: packets_from.simps [of data False offset])
  next
    case True
    have pos: "0 < PACKET_SIZE" by (simp add: PACKET_SIZE_def)
    let ?pk = "if length data - offset < PACKET_SIZE then drop offset data
               else take PACKET_SIZE (drop offset data)"
    have "set ?pk \<subseteq> set data"
      by (auto dest: in_set_takeD in_set_dropD)
    then have nz: "0 \<notin> set ?pk" using assms by blast
    have "?pk \<noteq> []" "length ?pk \<le> PACKET_SIZE" using True pos by auto
    with nz have q: "quiet_packet ?pk" by (simp add: quiet_packet_def)
    have "length data - (offset + PACKET_SIZE) < length data - offset"
      using True pos by simp
    then have "list_all quiet_packet (packets_from data False (offset + PACKET_SIZE))"
      by (rule less.hyps)
    with q True show ?thesis
      by (simp add: packets_from.simps [of data False offset] Let_def split: if_splits)
  qed
qed

lemma receive_packets_closed:
  "list_all quiet_packet pre \<Longrightarrow> incoming s = map Data pre \<Longrightarrow>
   fst (receive_packets acc s) = Inr None"
proof (induction pre arbitrary: acc s)
  case Nil
  then show ?case
    by (simp add: receive_packets.simps [of acc s] recv_def)
next
  case (Cons q pre)
  from Cons.prems(1) have qq: "quiet_packet q" and rest: "list_all quiet_packet pre"
    by simp_all
  from qq have q: "q \<noteq> []" "length q \<le> PACKET_SIZE" "0 \<notin> set q"
    by (simp_all add: quiet_packet_def)
  let ?s1 = "s\<lparr>incoming := map Data pre, waited := waited s\<rparr>"
  have r: "recv PACKET_SIZE s = (Inr q, ?s1)"
    using Cons.prems(2) q(2) by (simp add: recv_whole_block)
  have "fst (receive_packets (acc @ q) ?s1) = Inr None"
    by (rule Cons.IH [OF rest]) simp
  with r q show ?case
    by (simp add: receive_packets.simps [of acc s])
qed

lemma lossy_eq_iff: "lossy c = 0 \<longleftrightarrow> c = 0" "lossy c = 0x0A \<longleftrightarrow> c = 0x0A"
  by (auto simp: lossy_def is_surrogate_def)

lemma long_line_spans_packets:
  assumes "PACKET_SIZE < length (line_data L True)"
  shows "2 \<le> length (line_packets L True)"
proof -
  from assms have "0 < length (line_data L True)" by linarith
  with assms show ?thesis
    by (simp add: line_packets_def packets_from.simps [of _ True 0]
        packets_from.simps [of _ True PACKET_SIZE] Let_def)
qed

text \<open>
  Without padding (the default of \<open>send_one_line\<close>, and what \<open>Connection.send\<close> uses) no
  NUL is sent: the receiver reads the packet of the line \<open>a\<close>, goes on reading, meets the
  end of the stream and returns \<open>None\<close>. With padding, a NUL inside the first line comes
  back as it was sent. The claim C3 fails on both inputs.
\<close>

theorem line_round_trip_counterexample:
  "sent (snd (send_one_line (peer_sock []) [97] False)) = [[97, 0x0A]]
   \<and> fst (receive_one_line (peer_sock [Data [97, 0x0A]])) = Inr None
   \<and> fst (receive_one_line
         (peer_sock (map Data (sent (snd (send_one_line (peer_sock []) [97, 0, 98] True))))))
       = Inr (Some [97, 0, 98, 0x0A])"
proof -
  have "line_packets [97] False = [[97, 0x0A]]"
    by (simp add: line_packets_def line_data_def first_line_def splitlines_def utf8_encode_def
        utf8_encode_char_def is_linebreak_def packets_from_short PACKET_SIZE_def)
  moreover have ok: "\<not> pipe_broken (peer_sock [])" "sent (peer_sock []) = []"
    by (simp_all add: peer_sock_def)
  moreover have "fst (receive_one_line (peer_sock [Data [97, 0x0A]])) = Inr None"
    by (simp add: receive_one_line_def peer_sock_def recv_def PACKET_SIZE_def
        receive_packets.simps [of "[]"] receive_packets.simps [of "[97, 0x0A]"])
  moreover have "fst (receive_one_line
         (peer_sock (map Data (sent (snd (send_one_line (peer_sock []) [97, 0, 98] True))))))
       = Inr (Some [97, 0, 98, 0x0A])"
  proof -
    define pad :: bytes where "pad = replicate (PACKET_SIZE - 5) 0"
    have ld: "line_data [97, 0, 98] True = [97, 0, 98, 0x0A, 0]"
      by (simp add: line_data_def first_line_def splitlines_def utf8_encode_def
          utf8_encode_char_def is_linebreak_def)
    have "packets_from [97, 0, 98, 0x0A, 0] True 0
        = [[97, 0, 98, 0x0A, 0]
           @ (if True then replicate (PACKET_SIZE - length [97, 0, 98, 0x0A, 0 :: byte]) 0 else [])]"
      by (rule packets_from_short) (simp_all add: PACKET_SIZE_def)
    then have pk: "line_packets [97, 0, 98] True = [[97, 0, 98, 0x0A, 0] @ pad]"
      by (simp add: line_packets_def ld pad_def)
    define p where "p = [97, 0, 98, 0x0A, 0] @ pad"
    have p: "p \<noteq> []" "length p \<le> PACKET_SIZE" "0 \<in> set p"
      by (simp_all add: p_def pad_def PACKET_SIZE_def)
    have inc: "incoming (peer_sock [Data p]) = map Data [] @ Data p # []"
      by (simp add: peer_sock_def)
    have rp: "receive_packets [] (peer_sock [Data p])
        = (Inr (Some p), (peer_sock [Data p])\<lparr>incoming := [], waited := waited (peer_sock [Data p])\<rparr>)"
      using receive_packets_stream [OF _ p inc, of "[]"] by simp
    have dec: "utf8_decode p = [97, 0, 98] @ 0x0A # replicate (Suc (PACKET_SIZE - 5)) 0"
      by (simp add: p_def pad_def decode_zeros)
    have st: "strip_char 0 (utf8_decode p) = [97, 0, 98] @ [0x0A]"
      unfolding dec by (rule strip_padding) simp
    have "fst (receive_one_line (peer_sock [Data p])) = Inr (Some [97, 0, 98, 0x0A])"
      by (simp add: receive_one_line_def Let_def rp st)
    then show ?thesis
      using ok pk by (simp add: send_one_line_sent p_def)
  qed
  ultimately show ?thesis by (simp add: send_one_line_sent)
qed

text \<open>
  C3 (amended): for every line whose first line holds no NUL, \<open>receive_one_line\<close> on the
  packets that \<open>send_one_line\<close> with \<open>pad_zeros=True\<close> produces returns that first line,
  each lone surrogate replaced by \<open>?\<close>, with exactly one newline appended, and has then
  read exactly these packets, however many they are. On the packets that
  \<open>send_one_line\<close> produces without padding, followed by the end of the stream,
  \<open>receive_one_line\<close> returns \<open>None\<close>.
\<close>

theorem padded_line_round_trip:
  assumes "\<not> pipe_broken s" and "sent s = []"
    and "valid_text (first_line L)" and "0 \<notin> set (first_line L)"
    and "incoming r = map Data (sent (snd (send_one_line s L pad_zeros))) @ evs"
  shows "(pad_zeros \<longrightarrow>
            fst (receive_one_line r) = Inr (Some (map lossy (first_line L) @ [0x0A]))
          \<and> incoming (snd (receive_one_line r)) = evs)
     \<and> (\<not> pad_zeros \<and> evs = [] \<longrightarrow> fst (receive_one_line r) = Inr None)"
proof (cases pad_zeros)
  case False
  have nz: "0 \<notin> set (line_data L False)"
    using encode_nul_free [OF assms(3,4)] by (simp add: line_data_def)
  have wire: "sent (snd (send_one_line s L False)) = line_packets L False"
    using assms(1,2) by (simp add: send_one_line_sent)
  have q: "list_all quiet_packet (line_packets L False)"
    unfolding line_packets_def by (rule packets_from_quiet [OF nz])
  have "fst (receive_one_line r) = Inr None" if "evs = []"
  proof -
    from that assms(5) False wire have "incoming r = map Data (line_packets L False)" by simp
    from receive_packets_closed [OF q this, of "[]"] show ?thesis
      by (cases "receive_packets [] r") (simp add: receive_one_line_def)
  qed
  with False show ?thesis by simp
next
  case True
  let ?fl = "first_line L"
  let ?d0 = "utf8_encode ?fl @ [0x0A]"
  have data: "line_data L True = ?d0 @ [0]" by (simp add: line_data_def)
  have nz: "0 \<notin> set ?d0" using encode_nul_free [OF assms(3,4)] by simp
  have wire: "sent (snd (send_one_line s L True)) = line_packets L True"
    using assms(1,2) by (simp add: send_one_line_sent)
  have "0 < length (line_data L True)" by (simp add: data)
  from packets_from_terminated [OF data nz this]
  obtain pre p k where pk: "line_packets L True = pre @ [p]" "list_all quiet_packet pre"
      "p \<noteq> []" "length p \<le> PACKET_SIZE" "0 \<in> set p"
      "concat pre @ p = line_data L True @ replicate k 0"
    unfolding line_packets_def by auto
  have inc: "incoming r = map Data pre @ Data p # evs"
    using assms(5) True wire pk(1) by simp
  have rp: "receive_packets [] r
      = (Inr (Some (line_data L True @ replicate k 0)), r\<lparr>incoming := evs, waited := waited r\<rparr>)"
    using receive_packets_stream [OF pk(2,3,4,5) inc, of "[]"] pk(6) by simp
  have "utf8_decode (line_data L True @ replicate k 0)
      = map lossy ?fl @ utf8_decode ([0x0A, 0] @ replicate k 0)"
    using decode_encode [OF assms(3), of "[0x0A, 0] @ replicate k 0"] by (simp add: data)
  also have "\<dots> = map lossy ?fl @ 0x0A # replicate (Suc k) 0"
    by (simp add: decode_zeros)
  finally have dec: "utf8_decode (line_data L True @ replicate k 0)
      = map lossy ?fl @ 0x0A # replicate (Suc k) 0" .
  have lz: "0 \<notin> set (map lossy ?fl)" using assms(4) by (auto simp: lossy_eq_iff)
  have ln: "0x0A \<notin> set (map lossy ?fl)"
  proof
    assume "0x0A \<in> set (map lossy ?fl)"
    then obtain c where c: "c \<in> set ?fl" "lossy c = 0x0A" by auto
    from c(2) have "c = 0x0A" by (simp only: lossy_eq_iff)
    with c(1) first_line_no_newline [of L] show False by simp
  qed
  have "map lossy ?fl = [] \<or> hd (map lossy ?fl) \<noteq> 0"
    using lz by (cases "map lossy ?fl") auto
  then have st: "strip_char 0 (utf8_decode (line_data L True @ replicate k 0)) = map lossy ?fl @ [0x0A]"
    unfolding dec by (rule strip_padding)
  have sp: "split_char 0x0A (map lossy ?fl @ [0x0A]) = [map lossy ?fl, []]"
    by (rule split_terminated [OF ln])
  have "fst (receive_one_line r) = Inr (Some (map lossy (first_line L) @ [0x0A]))
     \<and> incoming (snd (receive_one_line r)) = evs"
    by (simp add: receive_one_line_def rp st sp Let_def)
  with True show ?thesis by simp
qed

theorem padded_line_round_trip_witness:
  "\<not> pipe_broken (peer_sock []) \<and> sent (peer_sock []) = []
   \<and> valid_text (first_line [104, 105, 0x0A, 121, 111])
   \<and> 0 \<notin> set (first_line [104, 105, 0x0A, 121, 111])
   \<and> fst (receive_one_line (peer_sock (map Data
         (sent (snd (send_one_line (peer_sock []) [104, 105, 0x0A, 121, 111] True))))))
       = Inr (Some [104, 105, 0x0A])"
proof -
  let ?L = "[104, 105, 0x0A, 121, 111] :: str"
  have fl: "first_line ?L = [104, 105]"
    by (simp add: first_line_takeWhile is_linebreak_def)
  have h1: "\<not> pipe_broken (peer_sock [])" and h2: "sent (peer_sock []) = []"
    by (simp_all add: peer_sock_def)
  have h3: "valid_text (first_line ?L)" by (simp add: fl valid_text_def)
  have h4: "0 \<notin> set (first_line ?L)" by (simp add: fl)
  have h5: "incoming (peer_sock (map Data (sent (snd (send_one_line (peer_sock []) ?L True)))))
      = map Data (sent (snd (send_one_line (peer_sock []) ?L True))) @ []"
    by (simp add: peer_sock_def)
  have "map lossy (first_line ?L) @ [0x0A] = [104, 105, 0x0A]"
    by (simp add: fl lossy_def is_surrogate_def)
  with padded_line_round_trip [OF h1 h2 h3 h4 h5] h1 h2 h3 h4 show ?thesis
    by simp
qed

end
